theory Spec2Isabelle
  imports Main
begin

section \<open>The connection pool of \<^verbatim>\<open>lib/pool.js\<close>\<close>

text \<open>
  The pool is a JavaScript object mutated by asynchronous methods. JavaScript runs one
  stretch of code at a time: an \<^verbatim>\<open>async\<close> method runs without interruption up to its next
  \<^verbatim>\<open>await\<close>, and \<^verbatim>\<open>EventEmitter.emit\<close> calls its listeners before it returns. Each such
  stretch is one function on the pool state below; the stretches are put together by the
  step function \<open>step\<close>, one event per stretch.

  Logging (\<^verbatim>\<open>trace\<close>, \<^verbatim>\<open>debug\<close>, \<^verbatim>\<open>showPoolStatus\<close>, \<^verbatim>\<open>nolog\<close>) changes nothing of the pool
  and is left out. The underlying \<^verbatim>\<open>RedisConnection\<close> is an external object: what it
  answers (a reply or an error) is an argument of the functions that await it.
\<close>

subsection \<open>Errors\<close>

text \<open>
  \<^verbatim>\<open>handleExecuteError\<close> looks at \<^verbatim>\<open>e.constructor === ConnectionError\<close> only, so an error
  is a \<open>ConnectionError\<close> or an error object of another constructor (\<open>Error\<close>), each
  with its message. \<open>TypeError\<close> is what JavaScript throws on a property read of
  \<^verbatim>\<open>undefined\<close>, as in \<^verbatim>\<open>this.connections[idx].free\<close> with \<^verbatim>\<open>idx\<close> out of range.
\<close>

datatype error = is_ConnectionError: ConnectionError string | Error string | TypeError

subsection \<open>Data\<close>

text \<open>\<^verbatim>\<open>Object.assign(this, { config, pool, idx, broken: false, free: false })\<close>\<close>

record PoolConnection =
  idx :: nat
  broken :: bool
  free :: bool

text \<open>
  \<^verbatim>\<open>Object.assign(this, { queue: [], connections: [], size: 0, nolog: false })\<close>.
  A queue entry is the pair \<^verbatim>\<open>{ res, rej }\<close> of one pending promise; it is named here by
  the number of the \<^verbatim>\<open>getConnection\<close> call that awaits it. The field \<^verbatim>\<open>size\<close> is
  \<open>size_p\<close>; \<^verbatim>\<open>config.connectionLimit\<close> is a number of connections, a \<open>nat\<close>.
\<close>

record RedisConnectionPool =
  queue :: "nat list"
  connections :: "PoolConnection list"
  size_p :: nat
  connectionLimit :: nat

text \<open>
  What a stretch of code does to the outside: \<open>Emit i\<close> is
  \<^verbatim>\<open>emitter.emit("release", i)\<close>, \<open>Enq w\<close> is the push of the entry of call \<open>w\<close> in
  \<^verbatim>\<open>waitForRelease\<close>, \<open>Res w i\<close> is \<^verbatim>\<open>res(conn)\<close> of that entry with the connection at
  position \<open>i\<close>, \<open>Rej w e\<close> is \<^verbatim>\<open>rej(e)\<close>.
\<close>

datatype obs = Emit nat | Enq nat | Res nat nat | Rej nat error

text \<open>
  A method leaves the pool in a new state, has done some observable things, and has
  returned a value (\<open>Inr\<close>) or thrown (\<open>Inl\<close>).
\<close>

type_synonym 'a outcome = "RedisConnectionPool \<times> obs list \<times> (error + 'a)"

text \<open>
  \<^verbatim>\<open>constructor(config)\<close>: \<^verbatim>\<open>Object.assign({ connectionLimit: 10 }, config)\<close>; the argument is
  the \<^verbatim>\<open>connectionLimit\<close> of \<^verbatim>\<open>config\<close>, if it has one.
\<close>

definition new_pool :: "nat option \<Rightarrow> RedisConnectionPool" where
  "new_pool config =
     \<lparr>queue = [], connections = [], size_p = 0,
      connectionLimit = (case config of None \<Rightarrow> 10 | Some n \<Rightarrow> n)\<rparr>"

subsection \<open>RedisConnectionPool\<close>

text \<open>
  \<^verbatim>\<open>this.connections.find(x => x.free || x.broken)\<close> returns the first such object; the
  model returns its position in the array, since the object is mutated afterwards.
\<close>

fun find_pos :: "('a \<Rightarrow> bool) \<Rightarrow> 'a list \<Rightarrow> nat option" where
  "find_pos P [] = None"
| "find_pos P (x # xs) = (if P x then Some 0 else map_option Suc (find_pos P xs))"

definition usable :: "PoolConnection \<Rightarrow> bool" where
  "usable x = (free x \<or> broken x)"

text \<open>
  \<^verbatim>\<open>queueHandler(idx)\<close>, the listener of the "release" event.
\<close>

definition queueHandler :: "nat \<Rightarrow> RedisConnectionPool \<Rightarrow> unit outcome" where
  "queueHandler i p =
     (if length (connections p) \<le> i then (p, [], Inl TypeError)
      else
        let conn = connections p ! i in
        if free conn = False \<and> broken conn = False then (p, [], Inr ())
        else
          (case queue p of
             [] \<Rightarrow> (p, [], Inr ())
           | w # ws \<Rightarrow>
               (p\<lparr>connections := (connections p)[i := conn\<lparr>free := False\<rparr>], queue := ws\<rparr>,
                [Res w i], Inr ())))"

text \<open>
  \<^verbatim>\<open>this.pool.emitter.emit("release", i)\<close>: the only listener is \<^verbatim>\<open>queueHandler\<close>, bound in
  the constructor, and \<^verbatim>\<open>emit\<close> runs it before returning.
\<close>

definition emit_release :: "nat \<Rightarrow> RedisConnectionPool \<Rightarrow> unit outcome" where
  "emit_release i p = (case queueHandler i p of (p', os, r) \<Rightarrow> (p', Emit i # os, r))"

text \<open>
  \<^verbatim>\<open>getNewConnection\<close> up to \<^verbatim>\<open>await conn.initialize()\<close>: the new object is pushed, and its
  position is returned.
\<close>

definition getNewConnection :: "RedisConnectionPool \<Rightarrow> RedisConnectionPool \<times> nat" where
  "getNewConnection p =
     (let connIdx = length (connections p);
          conn = \<lparr>idx = connIdx, broken = False, free = False\<rparr>
      in (p\<lparr>connections := connections p @ [conn]\<rparr>, connIdx))"

text \<open>
  What a call of \<^verbatim>\<open>getConnection\<close> is doing: awaiting the first \<^verbatim>\<open>initialize\<close> of the
  connection at a position, awaiting its queue entry, holding an entry that was resolved
  with a connection while the code after the \<^verbatim>\<open>await\<close> has not run yet, awaiting a
  \<^verbatim>\<open>repair\<close>, returned with a connection, or thrown. \<open>Gone\<close> is a call whose connection was
  released or broke after it was returned.
\<close>

datatype task =
  Initializing nat | Waiting | Resolved nat | Repairing nat | Holding nat | Failed error | Gone

text \<open>
  The end of \<^verbatim>\<open>getOldConnection\<close>, from \<^verbatim>\<open>conn.free = false\<close> on, with \<^verbatim>\<open>conn\<close> the object at
  position \<open>i\<close>: it runs up to \<^verbatim>\<open>await conn.repair()\<close> or to \<^verbatim>\<open>return conn\<close>.
\<close>

definition getOldConnection_take :: "nat \<Rightarrow> RedisConnectionPool \<Rightarrow> RedisConnectionPool \<times> task" where
  "getOldConnection_take i p =
     (let conn = (connections p ! i)\<lparr>free := False\<rparr> in
      if broken conn
      then (p\<lparr>connections := (connections p)[i := conn\<lparr>broken := False\<rparr>]\<rparr>, Repairing i)
      else (p\<lparr>connections := (connections p)[i := conn]\<rparr>, Holding i))"

text \<open>
  \<^verbatim>\<open>getOldConnection\<close> of call \<open>c\<close>, up to its first \<^verbatim>\<open>await\<close>; \<^verbatim>\<open>waitForRelease\<close> pushes
  the entry of the call.
\<close>

definition getOldConnection :: "nat \<Rightarrow> RedisConnectionPool \<Rightarrow> RedisConnectionPool \<times> task \<times> obs list" where
  "getOldConnection c p =
     (case find_pos usable (connections p) of
        None \<Rightarrow> (p\<lparr>queue := queue p @ [c]\<rparr>, Waiting, [Enq c])
      | Some i \<Rightarrow> (case getOldConnection_take i p of (p', t) \<Rightarrow> (p', t, [])))"

text \<open>\<^verbatim>\<open>getConnection\<close> of call \<open>c\<close>, up to its first \<^verbatim>\<open>await\<close>.\<close>

definition getConnection :: "nat \<Rightarrow> RedisConnectionPool \<Rightarrow> RedisConnectionPool \<times> task \<times> obs list" where
  "getConnection c p =
     (case find_pos usable (connections p) of
        None \<Rightarrow>
          if size_p p < connectionLimit p
          then (case getNewConnection (p\<lparr>size_p := size_p p + 1\<rparr>) of
                  (p', i) \<Rightarrow> (p', Initializing i, []))
          else getOldConnection c p
      | Some _ \<Rightarrow> getOldConnection c p)"

text \<open>
  \<^verbatim>\<open>emptyQueue\<close>: \<^verbatim>\<open>while (r = this.queue.shift()) r.rej(new ConnectionError(...))\<close>. An
  entry is an object, so the loop stops on the empty queue only.
\<close>

function emptyQueue :: "RedisConnectionPool \<Rightarrow> unit outcome" where
  "emptyQueue p =
     (case queue p of
        [] \<Rightarrow> (p, [], Inr ())
      | r # rest \<Rightarrow>
          (case emptyQueue (p\<lparr>queue := rest\<rparr>) of
             (p', os, x) \<Rightarrow> (p', Rej r (ConnectionError ''No live TCP connection'') # os, x)))"
  by pat_completeness auto
termination
  by (relation "measure (\<lambda>p. length (queue p))") auto

declare emptyQueue.simps [simp del]

subsection \<open>PoolConnection\<close>

text \<open>
  A method of the \<^verbatim>\<open>PoolConnection\<close> at position \<open>i\<close> of \<^verbatim>\<open>connections\<close>; \<^verbatim>\<open>this.idx\<close> is
  the \<open>idx\<close> field of that object. There is no object beyond the end of the array, and a
  method call on \<^verbatim>\<open>undefined\<close> throws.
\<close>

definition set_free :: "nat \<Rightarrow> bool \<Rightarrow> RedisConnectionPool \<Rightarrow> RedisConnectionPool" where
  "set_free i b p = p\<lparr>connections := (connections p)[i := (connections p ! i)\<lparr>free := b\<rparr>]\<rparr>"

definition set_broken :: "nat \<Rightarrow> bool \<Rightarrow> RedisConnectionPool \<Rightarrow> RedisConnectionPool" where
  "set_broken i b p = p\<lparr>connections := (connections p)[i := (connections p ! i)\<lparr>broken := b\<rparr>]\<rparr>"

text \<open>\<^verbatim>\<open>release()\<close>\<close>

definition release :: "nat \<Rightarrow> RedisConnectionPool \<Rightarrow> unit outcome" where
  "release i p =
     (if length (connections p) \<le> i then (p, [], Inl TypeError)
      else emit_release (idx (connections p ! i)) (set_free i True p))"

text \<open>\<^verbatim>\<open>handleServerBroken()\<close>, the callback of the connection's "end" event.\<close>

definition handleServerBroken :: "nat \<Rightarrow> RedisConnectionPool \<Rightarrow> unit outcome" where
  "handleServerBroken i p =
     (if length (connections p) \<le> i then (p, [], Inl TypeError)
      else emit_release (idx (connections p ! i)) (set_broken i True p))"

text \<open>
  \<^verbatim>\<open>handleExecuteError(e)\<close>: it always throws; what it throws is \<open>e\<close>, unless the listener
  threw first.
\<close>

definition handleExecuteError :: "error \<Rightarrow> nat \<Rightarrow> RedisConnectionPool \<Rightarrow> 'a outcome" where
  "handleExecuteError e i p =
     (if length (connections p) \<le> i then (p, [], Inl TypeError)
      else if is_ConnectionError e
      then (case emit_release (idx (connections p ! i)) (set_broken i True p) of
              (p', os, Inl e') \<Rightarrow> (p', os, Inl e')
            | (p', os, Inr _) \<Rightarrow> (p', os, Inl e))
      else (p, [], Inl e))"

text \<open>
  \<^verbatim>\<open>execute(command)\<close> after \<^verbatim>\<open>await this.conn.execute(command)\<close> has settled with \<open>r\<close>.
\<close>

definition execute :: "nat \<Rightarrow> error + string \<Rightarrow> RedisConnectionPool \<Rightarrow> string outcome" where
  "execute i r p =
     (case r of
        Inr reply \<Rightarrow> (p, [], Inr reply)
      | Inl e \<Rightarrow> handleExecuteError e i p)"

text \<open>
  \<^verbatim>\<open>initialize()\<close> after \<^verbatim>\<open>await this.conn.initialize()\<close> has settled with \<open>r\<close>; \<^verbatim>\<open>repair()\<close>
  is a call of \<^verbatim>\<open>initialize()\<close>.
\<close>

definition initialize :: "nat \<Rightarrow> error + unit \<Rightarrow> RedisConnectionPool \<Rightarrow> unit outcome" where
  "initialize i r p =
     (case r of
        Inr u \<Rightarrow> (p, [], Inr ())
      | Inl e \<Rightarrow> handleExecuteError e i p)"

definition repair :: "nat \<Rightarrow> error + unit \<Rightarrow> RedisConnectionPool \<Rightarrow> unit outcome" where
  "repair i r p = initialize i r p"

subsection \<open>Calls in flight\<close>

text \<open>
  The pool together with the calls of \<^verbatim>\<open>getConnection\<close> made so far (call \<open>c\<close> is
  \<open>tasks ! c\<close>) and everything observed so far.
\<close>

record sys =
  pool :: RedisConnectionPool
  tasks :: "task list"
  trace :: "obs list"

definition new_sys :: "nat option \<Rightarrow> sys" where
  "new_sys config = \<lparr>pool = new_pool config, tasks = [], trace = []\<rparr>"

text \<open>
  Settling a queue entry wakes the call that awaits it. A promise settles once: an entry
  whose call is not waiting any more is left alone.
\<close>

fun deliver :: "obs \<Rightarrow> task list \<Rightarrow> task list" where
  "deliver (Res w i) ts = (if w < length ts \<and> ts ! w = Waiting then ts[w := Resolved i] else ts)"
| "deliver (Rej w e) ts = (if w < length ts \<and> ts ! w = Waiting then ts[w := Failed e] else ts)"
| "deliver (Emit i) ts = ts"
| "deliver (Enq w) ts = ts"

text \<open>A connection that is released, or breaks, is no longer held by the call it was returned to.\<close>

definition end_hold :: "nat \<Rightarrow> task list \<Rightarrow> task list" where
  "end_hold i ts = map (\<lambda>t. if t = Holding i then Gone else t) ts"

text \<open>
  The connection a call is awaiting the \<^verbatim>\<open>initialize\<close> of (\<^verbatim>\<open>getNewConnection\<close>) or the
  \<^verbatim>\<open>repair\<close> of (\<^verbatim>\<open>getOldConnection\<close>).
\<close>

fun connecting :: "task \<Rightarrow> nat option" where
  "connecting (Initializing i) = Some i"
| "connecting (Repairing i) = Some i"
| "connecting _ = None"

text \<open>
  The events. \<open>Acquire\<close>: \<^verbatim>\<open>getConnection()\<close> is called; the call gets the next number.
  \<open>ConnectOk c\<close>, \<open>ConnectFail c e\<close>: the \<^verbatim>\<open>initialize\<close> or \<^verbatim>\<open>repair\<close> that call \<open>c\<close>
  awaits settles; the call then returns the connection, or throws.
  \<open>Resume c\<close>: the code after \<^verbatim>\<open>await this.waitForRelease()\<close> of call \<open>c\<close> runs.
  \<open>Release i\<close>: \<^verbatim>\<open>release()\<close> is called on the connection at position \<open>i\<close>.
  \<open>LinkLost i\<close>: the "end" event of its connection. \<open>ExecFail i e\<close>: an \<^verbatim>\<open>execute\<close> on it
  fails with \<open>e\<close>. \<open>Teardown\<close>: \<^verbatim>\<open>emptyQueue()\<close>.

  An event that names a call or a connection that does not exist, or a call that is not
  at that \<^verbatim>\<open>await\<close>, cannot happen: \<open>step\<close> is \<open>None\<close> there.
\<close>

datatype event =
  Acquire | ConnectOk nat | ConnectFail nat error | Resume nat
  | Release nat | LinkLost nat | ExecFail nat error | Teardown

definition finish_connect :: "nat \<Rightarrow> error + unit \<Rightarrow> sys \<Rightarrow> sys option" where
  "finish_connect c r s =
     (if length (tasks s) \<le> c then None
      else
        (case connecting (tasks s ! c) of
           None \<Rightarrow> None
         | Some i \<Rightarrow>
             if length (connections (pool s)) \<le> i then None
             else
               (case (case tasks s ! c of
                        Repairing j \<Rightarrow> repair i r (pool s)
                      | _ \<Rightarrow> initialize i r (pool s)) of
                  (p, os, Inr u) \<Rightarrow>
                    Some \<lparr>pool = p, tasks = (fold deliver os (tasks s))[c := Holding i],
                          trace = trace s @ os\<rparr>
                | (p, os, Inl e) \<Rightarrow>
                    Some \<lparr>pool = p, tasks = (fold deliver os (tasks s))[c := Failed e],
                          trace = trace s @ os\<rparr>)))"

fun step :: "event \<Rightarrow> sys \<Rightarrow> sys option" where
  "step Acquire s =
     (case getConnection (length (tasks s)) (pool s) of
        (p, t, os) \<Rightarrow> Some \<lparr>pool = p, tasks = tasks s @ [t], trace = trace s @ os\<rparr>)"
| "step (ConnectOk c) s = finish_connect c (Inr ()) s"
| "step (ConnectFail c e) s = finish_connect c (Inl e) s"
| "step (Resume c) s =
     (if length (tasks s) \<le> c then None
      else
        (case tasks s ! c of
           Resolved i \<Rightarrow>
             if length (connections (pool s)) \<le> i then None
             else
               (case getOldConnection_take i (pool s) of
                  (p, t) \<Rightarrow> Some (s\<lparr>pool := p, tasks := (tasks s)[c := t]\<rparr>))
         | _ \<Rightarrow> None))"
| "step (Release i) s =
     (case release i (pool s) of
        (p, os, Inr u) \<Rightarrow>
          Some \<lparr>pool = p, tasks = fold deliver os (end_hold i (tasks s)), trace = trace s @ os\<rparr>
      | (p, os, Inl e) \<Rightarrow> None)"
| "step (LinkLost i) s =
     (case handleServerBroken i (pool s) of
        (p, os, Inr u) \<Rightarrow>
          Some \<lparr>pool = p, tasks = fold deliver os (end_hold i (tasks s)), trace = trace s @ os\<rparr>
      | (p, os, Inl e) \<Rightarrow> None)"
| "step (ExecFail i e) s =
     (if length (connections (pool s)) \<le> i then None
      else
        (case execute i (Inl e) (pool s) of
           (p, os, r) \<Rightarrow>
             Some \<lparr>pool = p,
                   tasks = fold deliver os
                             (if is_ConnectionError e then end_hold i (tasks s) else tasks s),
                   trace = trace s @ os\<rparr>))"
| "step Teardown s =
     (case emptyQueue (pool s) of
        (p, os, r) \<Rightarrow> Some \<lparr>pool = p, tasks = fold deliver os (tasks s), trace = trace s @ os\<rparr>)"

fun run :: "event list \<Rightarrow> sys \<Rightarrow> sys option" where
  "run [] s = Some s"
| "run (ev # evs) s = (case step ev s of None \<Rightarrow> None | Some s' \<Rightarrow> run evs s')"

section \<open>The callback wrapper of \<^verbatim>\<open>lib/basic.js\<close>\<close>

text \<open>
  The hiredis connection is a socket and an event emitter. Of the socket the model keeps
  the \<^verbatim>\<open>destroyed\<close> flag and the commands given to \<^verbatim>\<open>write\<close>; of the emitter the
  listeners of "reply" and "error", each added with \<^verbatim>\<open>once\<close>. The listeners \<^verbatim>\<open>f1\<close> and
  \<^verbatim>\<open>f2\<close> of one call of \<^verbatim>\<open>executeCb\<close> are named by the number \<open>k\<close> of the call, and
  so is its \<^verbatim>\<open>callback\<close>; \<open>invoked\<close> lists the calls of the callbacks in order, with
  \<open>Inl e\<close> for \<^verbatim>\<open>callback(e)\<close> and \<open>Inr r\<close> for \<^verbatim>\<open>callback(null, r)\<close>.
\<close>

record connection =
  destroyed :: bool
  written :: "string list list"
  reply_once :: "nat list"
  error_once :: "nat list"
  invoked :: "(nat \<times> (error + string)) list"

text \<open>
  \<^verbatim>\<open>executeCb(conn, commandArray, callback)\<close>; the \<^verbatim>\<open>if (conn.destroyed)\<close> has no
  \<^verbatim>\<open>return\<close> and no \<^verbatim>\<open>else\<close>.
\<close>

definition executeCb :: "nat \<Rightarrow> string list \<Rightarrow> connection \<Rightarrow> connection" where
  "executeCb k commandArray conn =
     (let c1 = (if destroyed conn
                then conn\<lparr>invoked := invoked conn @ [(k, Inl (Error ''Socket Destroyed''))]\<rparr>
                else conn);
          c2 = c1\<lparr>written := written c1 @ [commandArray]\<rparr>;
          c3 = c2\<lparr>reply_once := reply_once c2 @ [k]\<rparr>
      in c3\<lparr>error_once := error_once c3 @ [k]\<rparr>)"

text \<open>
  \<^verbatim>\<open>conn.emit("reply", r)\<close> calls the listeners that were registered when it started. A
  \<^verbatim>\<open>once\<close> listener is removed before it runs; \<^verbatim>\<open>f1\<close> then removes \<^verbatim>\<open>f2\<close> from "error"
  (\<^verbatim>\<open>removeListener\<close> returns the emitter, which is truthy) and calls \<^verbatim>\<open>callback(null, r)\<close>.
\<close>

fun fire_reply :: "string \<Rightarrow> nat list \<Rightarrow> connection \<Rightarrow> connection" where
  "fire_reply r [] conn = conn"
| "fire_reply r (k # ks) conn =
     fire_reply r ks
       (conn\<lparr>reply_once := remove1 k (reply_once conn),
             error_once := remove1 k (error_once conn),
             invoked := invoked conn @ [(k, Inr r)]\<rparr>)"

definition emit_reply :: "string \<Rightarrow> connection \<Rightarrow> connection" where
  "emit_reply r conn = fire_reply r (reply_once conn) conn"

text \<open>\<^verbatim>\<open>conn.emit("error", e)\<close>: \<^verbatim>\<open>f2\<close> removes \<^verbatim>\<open>f1\<close> from "reply" and calls \<^verbatim>\<open>callback(e)\<close>.\<close>

fun fire_error :: "error \<Rightarrow> nat list \<Rightarrow> connection \<Rightarrow> connection" where
  "fire_error e [] conn = conn"
| "fire_error e (k # ks) conn =
     fire_error e ks
       (conn\<lparr>error_once := remove1 k (error_once conn),
             reply_once := remove1 k (reply_once conn),
             invoked := invoked conn @ [(k, Inl e)]\<rparr>)"

definition emit_error :: "error \<Rightarrow> connection \<Rightarrow> connection" where
  "emit_error e conn = fire_error e (error_once conn) conn"

text \<open>
  \<^verbatim>\<open>execute(conn, commandArray)\<close> returns a promise whose executor calls \<^verbatim>\<open>executeCb\<close> with
  the callback \<^verbatim>\<open>(e, r) => e ? rej(e) : res(r)\<close>. A promise keeps the first of \<^verbatim>\<open>res\<close>
  and \<^verbatim>\<open>rej\<close> that is called: the promise of call \<open>k\<close> is read off the first call of
  its callback.
\<close>

datatype promise = Pending | Fulfilled string | Rejected error

definition calls_of :: "nat \<Rightarrow> connection \<Rightarrow> (error + string) list" where
  "calls_of k conn = map snd (filter (\<lambda>x. fst x = k) (invoked conn))"

definition promise_of :: "nat \<Rightarrow> connection \<Rightarrow> promise" where
  "promise_of k conn =
     (case calls_of k conn of
        [] \<Rightarrow> Pending
      | Inl e # later \<Rightarrow> Rejected e
      | Inr r # later \<Rightarrow> Fulfilled r)"

definition execute_basic :: "nat \<Rightarrow> string list \<Rightarrow> connection \<Rightarrow> connection" where
  "execute_basic k commandArray conn = executeCb k commandArray conn"

section \<open>Notions used in the statements\<close>

text \<open>
  The shape of the slot array that the pool keeps: the object at position \<open>i\<close> has
  \<open>idx = i\<close>, \<^verbatim>\<open>size\<close> counts the objects, and there are at most \<^verbatim>\<open>connectionLimit\<close>.
\<close>

definition slots_ok :: "RedisConnectionPool \<Rightarrow> bool" where
  "slots_ok p =
     (map idx (connections p) = [0..<length (connections p)]
      \<and> size_p p = length (connections p) \<and> size_p p \<le> connectionLimit p)"

text \<open>
  Whenever some slot is free, nobody is waiting: \<^verbatim>\<open>getOldConnection\<close> queues a call only
  when no slot is free or broken, and \<^verbatim>\<open>release\<close> hands a freed slot to the queue first.
\<close>

definition queue_idle :: "RedisConnectionPool \<Rightarrow> bool" where
  "queue_idle p = ((\<exists>x \<in> set (connections p). free x) \<longrightarrow> queue p = [])"

text \<open>
  Of a trace: the entries in the order they were pushed, in the order they were settled
  (resolved or rejected), and the resolved ones in the order they were resolved.
\<close>

fun enq_of :: "obs \<Rightarrow> nat list" where
  "enq_of (Enq w) = [w]"
| "enq_of _ = []"

fun settle_of :: "obs \<Rightarrow> nat list" where
  "settle_of (Res w i) = [w]"
| "settle_of (Rej w e) = [w]"
| "settle_of _ = []"

fun res_of :: "obs \<Rightarrow> nat list" where
  "res_of (Res w i) = [w]"
| "res_of _ = []"

definition enqueued :: "obs list \<Rightarrow> nat list" where
  "enqueued tr = concat (map enq_of tr)"

definition settled :: "obs list \<Rightarrow> nat list" where
  "settled tr = concat (map settle_of tr)"

definition fulfilled :: "obs list \<Rightarrow> nat list" where
  "fulfilled tr = concat (map res_of tr)"

text \<open>\<open>before x y xs\<close>: \<open>y\<close> occurs in \<open>xs\<close> after the first \<open>x\<close>.\<close>

fun before :: "'a \<Rightarrow> 'a \<Rightarrow> 'a list \<Rightarrow> bool" where
  "before x y [] = False"
| "before x y (z # zs) = (if z = x then y \<in> set zs else before x y zs)"

text \<open>
  The entries pushed so far are the settled ones followed by the queue, each pushed once.
\<close>

definition fifo_inv :: "sys \<Rightarrow> bool" where
  "fifo_inv s =
     (enqueued (trace s) = settled (trace s) @ queue (pool s)
      \<and> distinct (enqueued (trace s))
      \<and> (\<forall>w \<in> set (enqueued (trace s)). w < length (tasks s)))"

text \<open>
  The slot a call refers to: the one it is connecting, was resolved with, or holds.
\<close>

fun slot_of :: "task \<Rightarrow> nat option" where
  "slot_of (Initializing i) = Some i"
| "slot_of (Resolved i) = Some i"
| "slot_of (Repairing i) = Some i"
| "slot_of (Holding i) = Some i"
| "slot_of _ = None"

text \<open>What reaches a slot from outside the pool: a release, the end of its link, a failed command.\<close>

fun touches :: "nat \<Rightarrow> event \<Rightarrow> bool" where
  "touches i (Release j) = (j = i)"
| "touches i (LinkLost j) = (j = i)"
| "touches i (ExecFail j e) = (j = i)"
| "touches i _ = False"

text \<open>A call that has returned or thrown.\<close>

fun finished :: "task \<Rightarrow> bool" where
  "finished (Holding i) = True"
| "finished (Failed e) = True"
| "finished Gone = True"
| "finished _ = False"

text \<open>
  No call other than those in \<open>X\<close> refers to slot \<open>i\<close>, and no queue entry was ever
  resolved with it.
\<close>

definition no_ref :: "nat \<Rightarrow> nat set \<Rightarrow> sys \<Rightarrow> bool" where
  "no_ref i X s =
     ((\<forall>c < length (tasks s). c \<notin> X \<longrightarrow> slot_of (tasks s ! c) \<noteq> Some i)
      \<and> (\<forall>w. Res w i \<notin> set (trace s)))"

text \<open>Calls and resolved entries refer to slots that exist.\<close>

definition refs_ok :: "sys \<Rightarrow> bool" where
  "refs_ok s =
     ((\<forall>c < length (tasks s). \<forall>j. slot_of (tasks s ! c) = Some j \<longrightarrow> j < length (connections (pool s)))
      \<and> (\<forall>w j. Res w j \<in> set (trace s) \<longrightarrow> j < length (connections (pool s))))"

text \<open>
  Call \<open>c\<close> created slot \<open>i\<close> and still awaits its first \<^verbatim>\<open>initialize\<close>, the slot being
  flagged neither free nor broken and known to no other call; or call \<open>c\<close> is over.
\<close>

definition pending_init :: "nat \<Rightarrow> nat \<Rightarrow> sys \<Rightarrow> bool" where
  "pending_init c i s =
     (slots_ok (pool s) \<and> c < length (tasks s)
      \<and> (finished (tasks s ! c)
          \<or> (tasks s ! c = Initializing i \<and> i < length (connections (pool s))
              \<and> \<not> usable (connections (pool s) ! i) \<and> no_ref i {c} s)))"

text \<open>
  Call \<open>c\<close> has thrown \<open>e\<close>, and slot \<open>i\<close> is flagged neither free nor broken while no
  call refers to it.
\<close>

definition lost_slot :: "nat \<Rightarrow> nat \<Rightarrow> error \<Rightarrow> sys \<Rightarrow> bool" where
  "lost_slot c i e s =
     (slots_ok (pool s) \<and> c < length (tasks s) \<and> tasks s ! c = Failed e
      \<and> i < length (connections (pool s)) \<and> \<not> usable (connections (pool s) ! i)
      \<and> no_ref i {} s)"

text \<open>The calls that hold slot \<open>i\<close>.\<close>

definition holders :: "nat \<Rightarrow> sys \<Rightarrow> nat list" where
  "holders i s = filter (\<lambda>c. tasks s ! c = Holding i) [0..<length (tasks s)]"

section \<open>Lemmas on the pool operations\<close>

lemma repair_eq [simp]: "repair i r p = initialize i r p"
  by (simp add: repair_def)

lemma repair_or_initialize [simp]:
  "(case t of Repairing j \<Rightarrow> repair i r p | _ \<Rightarrow> initialize i r p) = initialize i r p"
  by (cases t) simp_all

lemma find_pos_None: "find_pos P xs = None \<longleftrightarrow> (\<forall>x \<in> set xs. \<not> P x)"
  by (induction xs) auto

lemma find_pos_Some: "find_pos P xs = Some i \<Longrightarrow> i < length xs \<and> P (xs ! i)"
  by (induction xs arbitrary: i) (auto split: if_splits)

lemma queueHandler_eq:
  "i < length (connections p) \<Longrightarrow>
   queueHandler i p =
     (if \<not> usable (connections p ! i) \<or> queue p = [] then (p, [], Inr ())
      else (p\<lparr>connections := (connections p)[i := (connections p ! i)\<lparr>free := False\<rparr>],
              queue := tl (queue p)\<rparr>, [Res (hd (queue p)) i], Inr ()))"
  by (auto simp: queueHandler_def usable_def Let_def split: list.splits)

lemma emptyQueue_eq:
  "emptyQueue p =
     (p\<lparr>queue := []\<rparr>, map (\<lambda>w. Rej w (ConnectionError ''No live TCP connection'')) (queue p), Inr ())"
proof (induction p rule: emptyQueue.induct)
  case (1 p)
  show ?case
  proof (cases "queue p")
    case Nil
    then show ?thesis by (subst emptyQueue.simps) simp
  next
    case (Cons r rest)
    with 1 [OF Cons] show ?thesis by (subst emptyQueue.simps) simp
  qed
qed

lemma idx_ok_nth: "map idx xs = [0..<length xs] \<Longrightarrow> i < length xs \<Longrightarrow> idx (xs ! i) = i"
  by (metis nth_map nth_upt add_0)

lemma slots_ok_idx:
  "slots_ok p \<Longrightarrow> i < length (connections p) \<Longrightarrow> idx (connections p ! i) = i"
  by (simp add: slots_ok_def idx_ok_nth)

lemma map_idx_update:
  "i < length xs \<Longrightarrow> idx v = idx (xs ! i) \<Longrightarrow> map idx (xs[i := v]) = map idx xs"
  by (simp add: map_update list_update_same_conv)

lemma release_eq:
  "slots_ok p \<Longrightarrow> i < length (connections p) \<Longrightarrow>
   release i p =
     (if queue p = [] then (set_free i True p, [Emit i], Inr ())
      else (p\<lparr>connections := (connections p)[i := (connections p ! i)\<lparr>free := False\<rparr>],
              queue := tl (queue p)\<rparr>, [Emit i, Res (hd (queue p)) i], Inr ()))"
  by (simp add: release_def emit_release_def slots_ok_idx queueHandler_eq set_free_def usable_def)

lemma handleServerBroken_eq:
  "slots_ok p \<Longrightarrow> i < length (connections p) \<Longrightarrow>
   handleServerBroken i p =
     (if queue p = [] then (set_broken i True p, [Emit i], Inr ())
      else (p\<lparr>connections := (connections p)[i := (connections p ! i)\<lparr>broken := True, free := False\<rparr>],
              queue := tl (queue p)\<rparr>, [Emit i, Res (hd (queue p)) i], Inr ()))"
  by (simp add: handleServerBroken_def emit_release_def slots_ok_idx queueHandler_eq set_broken_def usable_def)

lemma handleExecuteError_eq:
  "slots_ok p \<Longrightarrow> i < length (connections p) \<Longrightarrow>
   handleExecuteError e i p =
     (if is_ConnectionError e then
        (if queue p = [] then (set_broken i True p, [Emit i], Inl e)
         else (p\<lparr>connections := (connections p)[i := (connections p ! i)\<lparr>broken := True, free := False\<rparr>],
              queue := tl (queue p)\<rparr>, [Emit i, Res (hd (queue p)) i], Inl e))
      else (p, [], Inl e))"
  by (simp add: handleExecuteError_def emit_release_def slots_ok_idx queueHandler_eq set_broken_def usable_def)

lemma getOldConnection_take_eq:
  "getOldConnection_take i p =
     (p\<lparr>connections := (connections p)[i := (connections p ! i)\<lparr>broken := False, free := False\<rparr>]\<rparr>,
      if broken (connections p ! i) then Repairing i else Holding i)"
  by (cases "connections p ! i") (simp add: getOldConnection_take_def Let_def)

section \<open>Invariants of the steps\<close>

subsection \<open>The slot array keeps its shape\<close>

lemma take_slots_ok [simp]:
  "i < length (connections p) \<Longrightarrow>
   slots_ok (p\<lparr>connections := (connections p)[i := (connections p ! i)\<lparr>broken := a, free := b\<rparr>]\<rparr>) = slots_ok p"
  by (simp add: slots_ok_def map_idx_update)

lemma getConnection_slots_ok:
  "slots_ok p \<Longrightarrow> getConnection c p = (p', t, os) \<Longrightarrow> slots_ok p'"
  by (auto simp: getConnection_def getOldConnection_def getNewConnection_def Let_def slots_ok_def
        getOldConnection_take_eq map_idx_update
      split: option.splits if_splits dest!: find_pos_Some)

lemma set_flag_slots_ok [simp]:
  "i < length (connections p) \<Longrightarrow> slots_ok (set_free i b p) = slots_ok p"
  "i < length (connections p) \<Longrightarrow> slots_ok (set_broken i b p) = slots_ok p"
  by (simp_all add: slots_ok_def set_free_def set_broken_def map_idx_update)

lemma serve_slots_ok [simp]:
  "i < length (connections p) \<Longrightarrow>
   slots_ok (p\<lparr>connections := (connections p)[i := (connections p ! i)\<lparr>free := b\<rparr>], queue := q\<rparr>) = slots_ok p"
  "i < length (connections p) \<Longrightarrow>
   slots_ok (p\<lparr>connections := (connections p)[i := (connections p ! i)\<lparr>broken := a, free := b\<rparr>], queue := q\<rparr>) = slots_ok p"
  by (simp_all add: slots_ok_def map_idx_update)

lemma step_slot_in_range:
  "step (Release i) s = Some s' \<Longrightarrow> i < length (connections (pool s))"
  "step (LinkLost i) s = Some s' \<Longrightarrow> i < length (connections (pool s))"
  "step (ExecFail i e) s = Some s' \<Longrightarrow> i < length (connections (pool s))"
  by (auto simp: release_def handleServerBroken_def split: if_splits)

lemma step_slots_ok:
  assumes "slots_ok (pool s)" and "step ev s = Some s'"
  shows "slots_ok (pool s')"
proof (cases ev)
  case Acquire
  with assms show ?thesis by (auto split: prod.splits dest: getConnection_slots_ok)
next
  case (ConnectOk c)
  with assms show ?thesis
    by (auto simp: finish_connect_def initialize_def split: if_splits option.splits)
next
  case (ConnectFail c e)
  with assms show ?thesis
    by (auto simp: finish_connect_def initialize_def handleExecuteError_eq
        split: if_splits option.splits)
next
  case (Resume c)
  with assms show ?thesis
    by (auto simp: getOldConnection_take_eq split: if_splits task.splits)
next
  case (Release i)
  with assms step_slot_in_range(1)[of i s s'] show ?thesis
    by (auto simp: release_eq split: if_splits)
next
  case (LinkLost i)
  with assms step_slot_in_range(2)[of i s s'] show ?thesis
    by (auto simp: handleServerBroken_eq split: if_splits)
next
  case (ExecFail i e)
  with assms step_slot_in_range(3)[of i e s s'] show ?thesis
    by (auto simp: execute_def handleExecuteError_eq split: if_splits)
next
  case Teardown
  with assms show ?thesis by (auto simp: emptyQueue_eq slots_ok_def)
qed

lemma run_invariant:
  assumes "run es s = Some s'" and "P s"
    and "\<And>ev s s'. P s \<Longrightarrow> step ev s = Some s' \<Longrightarrow> P s'"
  shows "P s'"
  using assms(1,2)
proof (induction es arbitrary: s)
  case Nil
  then show ?case by simp
next
  case (Cons ev es)
  then show ?case by (auto split: option.splits intro: assms(3))
qed

lemma new_sys_slots_ok: "slots_ok (pool (new_sys cfg))"
  by (simp add: new_sys_def new_pool_def slots_ok_def)

lemma run_slots_ok: "run es (new_sys cfg) = Some s \<Longrightarrow> slots_ok (pool s)"
  by (rule run_invariant [where P = "\<lambda>s. slots_ok (pool s)"])
     (auto simp: new_sys_slots_ok intro: step_slots_ok)

subsection \<open>No call waits while a slot is free\<close>

lemma in_set_updateD: "x \<in> set (xs[i := v]) \<Longrightarrow> x = v \<or> x \<in> set xs"
  using set_update_subset_insert [of xs i v] by auto

lemma queue_idle_empty: "queue p = [] \<Longrightarrow> queue_idle p"
  by (simp add: queue_idle_def)

lemma queue_idle_unfree:
  "queue_idle p \<Longrightarrow> \<not> free v \<Longrightarrow> queue_idle (p\<lparr>connections := (connections p)[i := v]\<rparr>)"
  by (auto simp: queue_idle_def dest!: in_set_updateD)

lemma queue_idle_serve:
  "queue_idle p \<Longrightarrow> queue p \<noteq> [] \<Longrightarrow> \<not> free v \<Longrightarrow>
   queue_idle (p\<lparr>connections := (connections p)[i := v], queue := q\<rparr>)"
  by (auto simp: queue_idle_def dest!: in_set_updateD)

lemma getConnection_queue_idle:
  "queue_idle p \<Longrightarrow> getConnection c p = (p', t, os) \<Longrightarrow> queue_idle p'"
  by (auto simp: getConnection_def getOldConnection_def getNewConnection_def Let_def
        getOldConnection_take_eq find_pos_None usable_def queue_idle_unfree
      split: option.splits if_splits)
     (auto simp: queue_idle_def)

lemma step_queue_idle:
  assumes "slots_ok (pool s)" and "queue_idle (pool s)" and "step ev s = Some s'"
  shows "queue_idle (pool s')"
proof (cases ev)
  case Acquire
  with assms show ?thesis by (auto split: prod.splits dest: getConnection_queue_idle)
next
  case (ConnectOk c)
  with assms show ?thesis
    by (auto simp: finish_connect_def initialize_def split: if_splits option.splits)
next
  case (ConnectFail c e)
  with assms show ?thesis
    by (auto simp: finish_connect_def initialize_def handleExecuteError_eq queue_idle_empty
        queue_idle_serve set_broken_def
        split: if_splits option.splits)
next
  case (Resume c)
  with assms show ?thesis
    by (auto simp: getOldConnection_take_eq queue_idle_unfree split: if_splits task.splits)
next
  case (Release i)
  with assms step_slot_in_range(1)[of i s s'] show ?thesis
    by (auto simp: release_eq queue_idle_empty queue_idle_serve set_free_def split: if_splits)
next
  case (LinkLost i)
  with assms step_slot_in_range(2)[of i s s'] show ?thesis
    by (auto simp: handleServerBroken_eq queue_idle_empty queue_idle_serve set_broken_def split: if_splits)
next
  case (ExecFail i e)
  with assms step_slot_in_range(3)[of i e s s'] show ?thesis
    by (auto simp: execute_def handleExecuteError_eq queue_idle_empty queue_idle_serve set_broken_def split: if_splits)
next
  case Teardown
  with assms show ?thesis by (auto simp: emptyQueue_eq queue_idle_def)
qed

subsection \<open>The queue is the part of the pushed entries that is not settled yet\<close>

lemma projections_append [simp]:
  "enqueued (xs @ ys) = enqueued xs @ enqueued ys"
  "settled (xs @ ys) = settled xs @ settled ys"
  "fulfilled (xs @ ys) = fulfilled xs @ fulfilled ys"
  by (simp_all add: enqueued_def settled_def fulfilled_def)

lemma projections_simps [simp]:
  "enqueued [] = []" "settled [] = []" "fulfilled [] = []"
  "enqueued (ob # tr) = enq_of ob @ enqueued tr"
  "settled (ob # tr) = settle_of ob @ settled tr"
  "fulfilled (ob # tr) = res_of ob @ fulfilled tr"
  by (simp_all add: enqueued_def settled_def fulfilled_def)

lemma settled_rejections [simp]:
  "settled (map (\<lambda>w. Rej w e) ws) = ws" "enqueued (map (\<lambda>w. Rej w e) ws) = []"
  by (induction ws) auto

lemma length_deliver [simp]: "length (deliver ob ts) = length ts"
  by (cases ob) auto

lemma length_fold_deliver [simp]: "length (fold deliver os ts) = length ts"
  by (induction os arbitrary: ts) auto

lemma length_end_hold [simp]: "length (end_hold i ts) = length ts"
  by (simp add: end_hold_def)

lemma getConnection_fifo:
  assumes "getConnection c p = (p', t, os)"
  shows "(os = [] \<and> queue p' = queue p) \<or> (os = [Enq c] \<and> queue p' = queue p @ [c])"
  using assms
  by (auto simp: getConnection_def getOldConnection_def getNewConnection_def Let_def
        getOldConnection_take_eq split: option.splits if_splits)

lemma fifo_inv_serve:
  assumes "fifo_inv s" and "queue (pool s) \<noteq> []"
    and "queue p' = tl (queue (pool s))" and "length ts = length (tasks s)"
  shows "fifo_inv \<lparr>pool = p', tasks = ts, trace = trace s @ [Emit i, Res (hd (queue (pool s))) i]\<rparr>"
  using assms by (cases "queue (pool s)") (auto simp: fifo_inv_def)

lemma fifo_inv_idle:
  assumes "fifo_inv s" and "queue p' = queue (pool s)" and "length ts = length (tasks s)"
    and "enqueued os = []" and "settled os = []"
  shows "fifo_inv \<lparr>pool = p', tasks = ts, trace = trace s @ os\<rparr>"
  using assms by (auto simp: fifo_inv_def)

lemma fifo_inv_same:
  assumes "fifo_inv s" and "queue p' = queue (pool s)" and "length ts = length (tasks s)"
  shows "fifo_inv \<lparr>pool = p', tasks = ts, trace = trace s\<rparr>"
  using assms by (auto simp: fifo_inv_def)

lemma step_fifo_inv:
  assumes "slots_ok (pool s)" and "fifo_inv s" and "step ev s = Some s'"
  shows "fifo_inv s'"
proof (cases ev)
  case Acquire
  obtain p' t os where g: "getConnection (length (tasks s)) (pool s) = (p', t, os)"
    by (cases "getConnection (length (tasks s)) (pool s)") auto
  with assms Acquire have s': "s' = \<lparr>pool = p', tasks = tasks s @ [t], trace = trace s @ os\<rparr>"
    by simp
  from getConnection_fifo [OF g] assms(2) show ?thesis
    unfolding s' by (auto simp: fifo_inv_def less_Suc_eq)
next
  case (ConnectOk c)
  with assms show ?thesis
    by (auto simp: finish_connect_def initialize_def fifo_inv_def split: if_splits option.splits)
next
  case (ConnectFail c e)
  with assms show ?thesis
    by (auto simp: finish_connect_def initialize_def handleExecuteError_eq set_broken_def
        split: if_splits option.splits intro!: fifo_inv_serve fifo_inv_idle fifo_inv_same)
next
  case (Resume c)
  with assms show ?thesis
    by (auto simp: getOldConnection_take_eq fifo_inv_def split: if_splits task.splits)
next
  case (Release i)
  with assms step_slot_in_range(1)[of i s s'] show ?thesis
    by (auto simp: release_eq set_free_def split: if_splits intro!: fifo_inv_serve fifo_inv_idle fifo_inv_same)
next
  case (LinkLost i)
  with assms step_slot_in_range(2)[of i s s'] show ?thesis
    by (auto simp: handleServerBroken_eq set_broken_def split: if_splits intro!: fifo_inv_serve fifo_inv_idle fifo_inv_same)
next
  case (ExecFail i e)
  with assms step_slot_in_range(3)[of i e s s'] show ?thesis
    by (auto simp: execute_def handleExecuteError_eq set_broken_def split: if_splits intro!: fifo_inv_serve fifo_inv_idle fifo_inv_same)
next
  case Teardown
  with assms show ?thesis by (auto simp: emptyQueue_eq fifo_inv_def)
qed

lemma new_sys_fifo_inv: "fifo_inv (new_sys cfg)"
  by (simp add: fifo_inv_def new_sys_def new_pool_def)

lemma run_fifo_inv: "run es (new_sys cfg) = Some s \<Longrightarrow> fifo_inv s"
  by (rule run_invariant [where P = "\<lambda>s. slots_ok (pool s) \<and> fifo_inv s", THEN conjunct2])
     (auto simp: new_sys_slots_ok new_sys_fifo_inv intro: step_slots_ok step_fifo_inv)

lemma before_mem: "before x y xs \<Longrightarrow> x \<in> set xs \<and> y \<in> set xs"
  by (induction xs) (auto split: if_splits)

lemma before_prefix:
  "before a b (ss @ qs) \<Longrightarrow> distinct (ss @ qs) \<Longrightarrow> a \<in> set ss \<Longrightarrow> b \<in> set ss \<Longrightarrow> before a b ss"
  by (induction ss) (auto split: if_splits dest: before_mem)

lemma before_enqueued: "before (Enq a) (Enq b) tr \<Longrightarrow> before a b (enqueued tr)"
proof (induction tr)
  case Nil
  then show ?case by simp
next
  case (Cons ob tr)
  have mem: "Enq b \<in> set tr \<Longrightarrow> b \<in> set (enqueued tr)"
    by (induction tr) auto
  from Cons mem show ?case by (cases ob) (auto split: if_splits)
qed

lemma Res_settled: "Res a i \<in> set tr \<Longrightarrow> a \<in> set (settled tr)"
  by (induction tr) auto

lemma before_Res:
  "before a b (settled tr) \<Longrightarrow> distinct (settled tr) \<Longrightarrow> Res a i \<in> set tr \<Longrightarrow> Res b j \<in> set tr
   \<Longrightarrow> before (Res a i) (Res b j) tr"
proof (induction tr)
  case Nil
  then show ?case by simp
next
  case (Cons ob tr)
  show ?case
  proof (cases "ob = Res a i")
    case True
    with Cons.prems show ?thesis by (auto dest: Res_settled)
  next
    case False
    with Cons.prems(3) have a: "Res a i \<in> set tr" by simp
    have ob_b: "ob \<noteq> Res b j"
    proof
      assume "ob = Res b j"
      with Cons.prems(1,2) a show False
        by (auto split: if_splits dest: Res_settled before_mem)
    qed
    with Cons.prems(4) have b: "Res b j \<in> set tr" by simp
    from Cons.prems(1,2) a have "before a b (settled tr)"
      by (cases ob) (auto split: if_splits dest: Res_settled)
    moreover from Cons.prems(2) have "distinct (settled tr)" by simp
    ultimately have "before (Res a i) (Res b j) tr" using a b by (rule Cons.IH)
    with False show ?thesis by simp
  qed
qed

lemma count_fulfilled_le: "count_list (fulfilled tr) w \<le> count_list (settled tr) w"
proof (induction tr)
  case Nil
  then show ?case by simp
next
  case (Cons ob tr)
  then show ?case by (cases ob) auto
qed

lemma distinct_count_le: "distinct xs \<Longrightarrow> count_list xs w \<le> 1"
  by (induction xs) auto

subsection \<open>The slot array grows\<close>

lemma getConnection_grows:
  "getConnection c p = (p', t, os) \<Longrightarrow>
   length (connections p) \<le> length (connections p') \<and> connectionLimit p' = connectionLimit p"
  by (auto simp: getConnection_def getOldConnection_def getNewConnection_def Let_def
        getOldConnection_take_eq split: option.splits if_splits)

lemma step_grows:
  assumes "slots_ok (pool s)" and "step ev s = Some s'"
  shows "length (connections (pool s)) \<le> length (connections (pool s'))
         \<and> connectionLimit (pool s') = connectionLimit (pool s)"
proof (cases ev)
  case Acquire
  with assms show ?thesis by (auto split: prod.splits dest: getConnection_grows)
next
  case (ConnectOk c)
  with assms show ?thesis
    by (auto simp: finish_connect_def initialize_def split: if_splits option.splits)
next
  case (ConnectFail c e)
  with assms show ?thesis
    by (auto simp: finish_connect_def initialize_def handleExecuteError_eq set_broken_def
        split: if_splits option.splits)
next
  case (Resume c)
  with assms show ?thesis
    by (auto simp: getOldConnection_take_eq split: if_splits task.splits)
next
  case (Release i)
  with assms step_slot_in_range(1)[of i s s'] show ?thesis
    by (auto simp: release_eq set_free_def split: if_splits)
next
  case (LinkLost i)
  with assms step_slot_in_range(2)[of i s s'] show ?thesis
    by (auto simp: handleServerBroken_eq set_broken_def split: if_splits)
next
  case (ExecFail i e)
  with assms step_slot_in_range(3)[of i e s s'] show ?thesis
    by (auto simp: execute_def handleExecuteError_eq set_broken_def split: if_splits)
next
  case Teardown
  with assms show ?thesis by (auto simp: emptyQueue_eq)
qed

lemma run_grows:
  assumes "slots_ok (pool s)" and "run es s = Some s'"
  shows "slots_ok (pool s') \<and> length (connections (pool s)) \<le> length (connections (pool s'))
         \<and> connectionLimit (pool s') = connectionLimit (pool s)"
  by (rule run_invariant [OF assms(2), where P = "\<lambda>x. slots_ok (pool x)
         \<and> length (connections (pool s)) \<le> length (connections (pool x))
         \<and> connectionLimit (pool x) = connectionLimit (pool s)"])
     (use assms(1) in \<open>auto dest: step_grows step_slots_ok\<close>)

subsection \<open>Release\<close>

lemma new_sys_queue_idle: "queue_idle (pool (new_sys cfg))"
  by (simp add: new_sys_def new_pool_def queue_idle_def)

lemma run_queue_idle: "run es (new_sys cfg) = Some s \<Longrightarrow> queue_idle (pool s)"
  by (rule run_invariant [where P = "\<lambda>s. slots_ok (pool s) \<and> queue_idle (pool s)", THEN conjunct2])
     (auto simp: new_sys_slots_ok new_sys_queue_idle intro: step_slots_ok step_queue_idle)

lemma set_free_same: "i < length (connections p) \<Longrightarrow> free (connections p ! i) = b \<Longrightarrow> set_free i b p = p"
  by (cases "connections p ! i") (auto simp: set_free_def list_update_same_conv)

lemma release_keeps_slots:
  assumes "slots_ok p" and "release j p = (p', os, r)"
  shows "map idx (connections p') = map idx (connections p)"
proof (cases "j < length (connections p)")
  case True
  with assms show ?thesis
    by (auto simp: release_eq set_free_def map_idx_update split: if_splits)
next
  case False
  with assms show ?thesis by (simp add: release_def)
qed

subsection \<open>A slot that nothing reaches from outside\<close>

lemma link_lost_flags_broken:
  assumes "slots_ok (pool s)" and "step (LinkLost i) s = Some s'"
  shows "i < length (connections (pool s')) \<and> broken (connections (pool s') ! i)"
  using assms step_slot_in_range(2) [of i s s']
  by (auto simp: handleServerBroken_eq set_broken_def split: if_splits)

lemma getConnection_task: "getConnection c p = (p', t, os) \<Longrightarrow> t \<noteq> Failed e"
  by (auto simp: getConnection_def getOldConnection_def getNewConnection_def Let_def
        getOldConnection_take_eq split: option.splits if_splits)

lemma nth_end_hold:
  "c < length ts \<Longrightarrow> end_hold j ts ! c = (if ts ! c = Holding j then Gone else ts ! c)"
  by (simp add: end_hold_def)

lemma fold_deliver_rejections:
  "fold deliver (map (\<lambda>w. Rej w e) ws) ts ! w =
     (if w \<in> set ws \<and> w < length ts \<and> ts ! w = Waiting then Failed e else ts ! w)"
proof (induction ws arbitrary: ts)
  case Nil
  then show ?case by simp
next
  case (Cons v ws)
  show ?case by (simp add: Cons.IH nth_list_update)
qed

lemma Res_not_rejection [simp]: "Res w i \<notin> set (map (\<lambda>w. Rej w e) ws)"
  by auto

lemma connecting_slot_of: "connecting t = Some i \<Longrightarrow> slot_of t = Some i"
  by (cases t) auto

lemma getConnection_quiet:
  assumes "getConnection c p = (p', t, os)" and "i < length (connections p)"
    and "\<not> usable (connections p ! i)"
  shows "connections p' ! i = connections p ! i \<and> slot_of t \<noteq> Some i \<and> (\<forall>w. Res w i \<notin> set os)"
  using assms
  by (auto simp: getConnection_def getOldConnection_def getNewConnection_def Let_def
        getOldConnection_take_eq nth_append nth_list_update
      split: option.splits if_splits dest!: find_pos_Some)

lemma quiet_step:
  assumes ok: "slots_ok (pool s)" and i: "i < length (connections (pool s))"
    and nu: "\<not> usable (connections (pool s) ! i)" and nr: "no_ref i X s"
    and st: "step ev s = Some s'" and nt: "\<not> touches i ev"
    and X: "\<forall>c \<in> X. tasks s ! c = Initializing i \<and> ev \<noteq> ConnectOk c \<and> (\<forall>e. ev \<noteq> ConnectFail c e)"
  shows "connections (pool s') ! i = connections (pool s) ! i \<and> no_ref i X s'
       \<and> (\<forall>c \<in> X. c < length (tasks s) \<longrightarrow> tasks s' ! c = tasks s ! c)"
proof (cases ev)
  case Acquire
  obtain p' t os where g: "getConnection (length (tasks s)) (pool s) = (p', t, os)"
    by (cases "getConnection (length (tasks s)) (pool s)") auto
  with st Acquire have s': "s' = \<lparr>pool = p', tasks = tasks s @ [t], trace = trace s @ os\<rparr>"
    by simp
  from getConnection_quiet [OF g i nu] nr show ?thesis
    unfolding s' by (auto simp: no_ref_def nth_append less_Suc_eq)
next
  case (ConnectOk c)
  from st ConnectOk obtain j where c: "c < length (tasks s)" and j: "connecting (tasks s ! c) = Some j"
    by (auto simp: finish_connect_def split: if_splits option.splits)
  from X ConnectOk have "c \<notin> X" by auto
  with nr c j have "j \<noteq> i" by (auto simp: no_ref_def dest: connecting_slot_of)
  with assms ConnectOk c j show ?thesis
    by (auto simp: finish_connect_def initialize_def no_ref_def nth_list_update
        split: if_splits)
next
  case (ConnectFail c e)
  from st ConnectFail obtain j where c: "c < length (tasks s)" and j: "connecting (tasks s ! c) = Some j"
    by (auto simp: finish_connect_def split: if_splits option.splits)
  from X ConnectFail have "c \<notin> X" by auto
  with nr c j have "j \<noteq> i" by (auto simp: no_ref_def dest: connecting_slot_of)
  with assms ConnectFail c j show ?thesis
    by (auto simp: finish_connect_def initialize_def handleExecuteError_eq set_broken_def
        no_ref_def nth_list_update
        split: if_splits)
next
  case (Resume c)
  from st Resume obtain j where c: "c < length (tasks s)" and j: "tasks s ! c = Resolved j"
    by (auto split: if_splits task.splits)
  from X Resume j have "c \<notin> X" by auto
  with nr c j have "j \<noteq> i" by (auto simp: no_ref_def)
  with assms Resume c j show ?thesis
    by (auto simp: getOldConnection_take_eq no_ref_def nth_list_update
        split: if_splits)
next
  case (Release j)
  with assms step_slot_in_range(1)[of j s s'] show ?thesis
    by (auto simp: release_eq set_free_def no_ref_def nth_list_update nth_end_hold split: if_splits)
next
  case (LinkLost j)
  with assms step_slot_in_range(2)[of j s s'] show ?thesis
    by (auto simp: handleServerBroken_eq set_broken_def no_ref_def nth_list_update nth_end_hold split: if_splits)
next
  case (ExecFail j e)
  with assms step_slot_in_range(3)[of j e s s'] show ?thesis
    by (auto simp: execute_def handleExecuteError_eq set_broken_def no_ref_def nth_list_update nth_end_hold split: if_splits)
next
  case Teardown
  with assms show ?thesis
    by (auto simp: emptyQueue_eq no_ref_def fold_deliver_rejections split: if_splits)
qed

lemma getConnection_refs:
  assumes "getConnection c p = (p', t, os)"
  shows "length (connections p) \<le> length (connections p')
       \<and> (\<forall>j. slot_of t = Some j \<longrightarrow> j < length (connections p')) \<and> (\<forall>w j. Res w j \<notin> set os)"
  using assms
  by (auto simp: getConnection_def getOldConnection_def getNewConnection_def Let_def
        getOldConnection_take_eq
      split: option.splits if_splits dest!: find_pos_Some)

lemma step_refs_ok:
  assumes ok: "slots_ok (pool s)" and r: "refs_ok s" and st: "step ev s = Some s'"
  shows "refs_ok s'"
proof (cases ev)
  case Acquire
  obtain p' t os where g: "getConnection (length (tasks s)) (pool s) = (p', t, os)"
    by (cases "getConnection (length (tasks s)) (pool s)") auto
  with st Acquire have s': "s' = \<lparr>pool = p', tasks = tasks s @ [t], trace = trace s @ os\<rparr>"
    by simp
  from getConnection_refs [OF g] r show ?thesis
    unfolding s' by (fastforce simp: refs_ok_def nth_append less_Suc_eq)
next
  case (ConnectOk c)
  with assms show ?thesis
    by (auto simp: finish_connect_def initialize_def refs_ok_def nth_list_update
        split: if_splits option.splits)
next
  case (ConnectFail c e)
  with assms show ?thesis
    by (auto simp: finish_connect_def initialize_def handleExecuteError_eq set_broken_def
        refs_ok_def nth_list_update
        split: if_splits option.splits)
next
  case (Resume c)
  with assms show ?thesis
    by (auto simp: getOldConnection_take_eq refs_ok_def nth_list_update
        split: if_splits task.splits)
next
  case (Release j)
  with assms step_slot_in_range(1)[of j s s'] show ?thesis
    by (auto simp: release_eq set_free_def refs_ok_def nth_list_update nth_end_hold split: if_splits)
next
  case (LinkLost j)
  with assms step_slot_in_range(2)[of j s s'] show ?thesis
    by (auto simp: handleServerBroken_eq set_broken_def refs_ok_def nth_list_update nth_end_hold split: if_splits)
next
  case (ExecFail j e)
  with assms step_slot_in_range(3)[of j e s s'] show ?thesis
    by (auto simp: execute_def handleExecuteError_eq set_broken_def refs_ok_def nth_list_update nth_end_hold split: if_splits)
next
  case Teardown
  with assms show ?thesis
    by (auto simp: emptyQueue_eq refs_ok_def fold_deliver_rejections split: if_splits)
qed

lemma new_sys_refs_ok: "refs_ok (new_sys cfg)"
  by (simp add: refs_ok_def new_sys_def)

lemma run_refs_ok: "run es (new_sys cfg) = Some s \<Longrightarrow> refs_ok s"
  by (rule run_invariant [where P = "\<lambda>s. slots_ok (pool s) \<and> refs_ok s", THEN conjunct2])
     (auto simp: new_sys_slots_ok new_sys_refs_ok intro: step_slots_ok step_refs_ok)

lemma nth_fold_deliver_finished:
  "c < length ts \<Longrightarrow> ts ! c \<noteq> Waiting \<Longrightarrow> fold deliver os ts ! c = ts ! c"
proof (induction os arbitrary: ts)
  case Nil
  then show ?case by simp
next
  case (Cons ob os)
  then show ?case by (cases ob) (auto simp: nth_list_update)
qed

lemma step_finished:
  assumes st: "step ev s = Some s'" and c: "c < length (tasks s)" and f: "finished (tasks s ! c)"
  shows "finished (tasks s' ! c) \<and> (\<forall>e. tasks s ! c = Failed e \<longrightarrow> tasks s' ! c = Failed e)"
proof -
  from f have nw: "tasks s ! c \<noteq> Waiting" by auto
  have eh: "\<And>j. end_hold j (tasks s) ! c \<noteq> Waiting \<and> finished (end_hold j (tasks s) ! c)
      \<and> (\<forall>e. tasks s ! c = Failed e \<longrightarrow> end_hold j (tasks s) ! c = Failed e)"
    using c f by (auto simp: nth_end_hold)
  show ?thesis
  proof (cases ev)
    case Acquire
    with st c f show ?thesis by (auto simp: nth_append split: prod.splits)
  next
    case (ConnectOk c')
    with st c f nw show ?thesis
      by (cases "tasks s ! c'")
         (auto simp: finish_connect_def initialize_def nth_list_update split: if_splits)
  next
    case (ConnectFail c' e)
    with st c f nw show ?thesis
      by (cases "tasks s ! c'")
         (auto simp: finish_connect_def nth_list_update nth_fold_deliver_finished
          split: if_splits prod.splits sum.splits)
  next
    case (Resume c')
    with st c f show ?thesis
      by (auto simp: getOldConnection_take_eq nth_list_update split: if_splits task.splits)
  next
    case (Release j)
    with st c eh [of j] show ?thesis
      by (auto simp: nth_fold_deliver_finished split: prod.splits sum.splits)
  next
    case (LinkLost j)
    with st c eh [of j] show ?thesis
      by (auto simp: nth_fold_deliver_finished split: prod.splits sum.splits)
  next
    case (ExecFail j e)
    with st c f nw eh [of j] show ?thesis
      by (auto simp: nth_fold_deliver_finished split: prod.splits sum.splits if_splits)
  next
    case Teardown
    with st c f nw show ?thesis
      by (auto simp: nth_fold_deliver_finished split: prod.splits)
  qed
qed

lemma run_invariant_on:
  assumes "run es s = Some s'" and "P s" and "\<forall>ev \<in> set es. Q ev"
    and "\<And>ev s s'. P s \<Longrightarrow> Q ev \<Longrightarrow> step ev s = Some s' \<Longrightarrow> P s'"
  shows "P s'"
  using assms(1,2,3)
proof (induction es arbitrary: s)
  case Nil
  then show ?case by simp
next
  case (Cons ev es)
  from Cons.prems(1) obtain s1 where 1: "step ev s = Some s1" and 2: "run es s1 = Some s'"
    by (auto split: option.splits)
  from Cons.prems(2,3) 1 have "P s1" by (auto intro: assms(4))
  with 2 Cons.prems(3) show ?case by (auto intro: Cons.IH)
qed

lemma step_length_tasks: "step ev s = Some s' \<Longrightarrow> length (tasks s) \<le> length (tasks s')"
  by (cases ev)
     (auto simp: finish_connect_def split: prod.splits sum.splits if_splits option.splits task.splits)

lemma step_connect_finished:
  "step (ConnectOk c) s = Some s' \<Longrightarrow> finished (tasks s' ! c)"
  "step (ConnectFail c e) s = Some s' \<Longrightarrow> finished (tasks s' ! c)"
  by (auto simp: finish_connect_def split: prod.splits sum.splits if_splits option.splits)

lemma step_pending_init:
  assumes p: "pending_init c i s" and nt: "\<not> touches i ev" and st: "step ev s = Some s'"
  shows "pending_init c i s'"
proof -
  from p have ok: "slots_ok (pool s)" and c: "c < length (tasks s)"
    by (auto simp: pending_init_def)
  from ok st have ok': "slots_ok (pool s')" by (rule step_slots_ok)
  from c step_length_tasks [OF st] have c': "c < length (tasks s')" by simp
  show ?thesis
  proof (cases "finished (tasks s ! c) \<or> ev = ConnectOk c \<or> (\<exists>e. ev = ConnectFail c e)")
    case True
    with st c have "finished (tasks s' ! c)"
      by (auto dest: step_finished step_connect_finished)
    with ok' c' show ?thesis by (simp add: pending_init_def)
  next
    case False
    with p have t: "tasks s ! c = Initializing i" and i: "i < length (connections (pool s))"
      and nu: "\<not> usable (connections (pool s) ! i)" and nr: "no_ref i {c} s"
      by (auto simp: pending_init_def)
    from False t have X: "\<forall>c' \<in> {c}. tasks s ! c' = Initializing i \<and> ev \<noteq> ConnectOk c'
        \<and> (\<forall>e. ev \<noteq> ConnectFail c' e)"
      by simp
    from quiet_step [OF ok i nu nr st nt X] c t
    have "connections (pool s') ! i = connections (pool s) ! i" and "no_ref i {c} s'"
      and "tasks s' ! c = Initializing i"
      by simp_all
    moreover from step_grows [OF ok st] i have "i < length (connections (pool s'))" by simp
    ultimately show ?thesis using ok' c' nu by (simp add: pending_init_def)
  qed
qed

lemma step_lost_slot:
  assumes p: "lost_slot c i e s" and nt: "\<not> touches i ev" and st: "step ev s = Some s'"
  shows "lost_slot c i e s'"
proof -
  from p have ok: "slots_ok (pool s)" and c: "c < length (tasks s)" and t: "tasks s ! c = Failed e"
    and i: "i < length (connections (pool s))"
    and nu: "\<not> usable (connections (pool s) ! i)" and nr: "no_ref i {} s"
    by (auto simp: lost_slot_def)
  from ok st have ok': "slots_ok (pool s')" by (rule step_slots_ok)
  from c step_length_tasks [OF st] have c': "c < length (tasks s')" by simp
  from step_finished [OF st c] t have t': "tasks s' ! c = Failed e" by simp
  from quiet_step [OF ok i nu nr st nt]
  have "connections (pool s') ! i = connections (pool s) ! i" and "no_ref i {} s'"
    by simp_all
  moreover from step_grows [OF ok st] i have "i < length (connections (pool s'))" by simp
  ultimately show ?thesis using ok' c' t' nu by (simp add: lost_slot_def)
qed

lemma acquire_creates:
  assumes ok: "slots_ok (pool s0)" and r: "refs_ok s0" and st: "step Acquire s0 = Some s1"
    and t: "tasks s1 ! length (tasks s0) = Initializing i"
  shows "pending_init (length (tasks s0)) i s1 \<and> size_p (pool s1) = Suc (size_p (pool s0))"
proof -
  from ok st have ok': "slots_ok (pool s1)" by (rule step_slots_ok)
  from st t have new: "find_pos usable (connections (pool s0)) = None"
      "size_p (pool s0) < connectionLimit (pool s0)"
    by (auto simp: getConnection_def getOldConnection_def getOldConnection_take_eq
        split: option.splits if_splits)
  with st t have s1: "s1 = \<lparr>pool = (pool s0)\<lparr>size_p := Suc (size_p (pool s0)),
        connections := connections (pool s0) @ [\<lparr>idx = i, broken = False, free = False\<rparr>]\<rparr>,
        tasks = tasks s0 @ [Initializing i], trace = trace s0\<rparr>"
    and i: "i = length (connections (pool s0))"
    by (auto simp: getConnection_def getNewConnection_def Let_def)
  from r i have "no_ref i {length (tasks s0)} s1"
    unfolding s1 by (fastforce simp: no_ref_def refs_ok_def nth_append less_Suc_eq)
  with ok' show ?thesis unfolding s1 using i
    by (simp add: pending_init_def usable_def)
qed

lemma init_failure_loses_slot:
  assumes p: "pending_init c i s" and st: "step (ConnectFail c e) s = Some s'"
    and e: "\<not> is_ConnectionError e"
  shows "lost_slot c i e s' \<and> pool s' = pool s"
proof -
  from st have "\<not> finished (tasks s ! c)"
    by (cases "tasks s ! c") (auto simp: finish_connect_def split: if_splits)
  with p have ok: "slots_ok (pool s)" and c: "c < length (tasks s)"
    and t: "tasks s ! c = Initializing i" and i: "i < length (connections (pool s))"
    and nu: "\<not> usable (connections (pool s) ! i)" and nr: "no_ref i {c} s"
    by (auto simp: pending_init_def)
  from st ok c t i e have s': "s' = \<lparr>pool = pool s, tasks = (tasks s)[c := Failed e], trace = trace s\<rparr>"
    by (simp add: finish_connect_def initialize_def handleExecuteError_eq)
  from nr c have "no_ref i {} s'"
    unfolding s' by (auto simp: no_ref_def nth_list_update)
  with ok c i nu show ?thesis unfolding s' by (simp add: lost_slot_def)
qed

section \<open>The release-notification handler\<close>

text \<open>
  What \<open>queueHandler\<close> does for the index \<open>i\<close> of a slot, the \<open>broken\<close> flag apart. If
  the slot is neither free nor broken, nothing changes. If it is free or broken and the
  queue is empty, nothing changes either, so the slot stays free or broken. If it is free
  or broken and the queue is not empty, exactly the head entry is removed and resolved
  with slot \<open>i\<close>, the \<open>free\<close> flag of slot \<open>i\<close> is cleared, and the other slots, the
  positions and the counters are as before.
\<close>

lemma queueHandler_cases:
  assumes "i < length (connections p)"
  shows "(\<not> free (connections p ! i) \<and> \<not> broken (connections p ! i)
            \<longrightarrow> queueHandler i p = (p, [], Inr ()))
       \<and> ((free (connections p ! i) \<or> broken (connections p ! i)) \<and> queue p = []
            \<longrightarrow> queueHandler i p = (p, [], Inr ()))
       \<and> ((free (connections p ! i) \<or> broken (connections p ! i)) \<and> queue p \<noteq> []
            \<longrightarrow> (case queueHandler i p of
                   (p', os, r) \<Rightarrow>
                     r = Inr () \<and> os = [Res (hd (queue p)) i] \<and> queue p' = tl (queue p)
                     \<and> free (connections p' ! i) = False
                     \<and> idx (connections p' ! i) = idx (connections p ! i)
                     \<and> length (connections p') = length (connections p)
                     \<and> (\<forall>j. j \<noteq> i \<longrightarrow> connections p' ! j = connections p ! j)
                     \<and> size_p p' = size_p p \<and> connectionLimit p' = connectionLimit p))"
  using assms by (simp add: queueHandler_eq usable_def)

text \<open>
  Claim C7 does not hold of the code. The claim says that the handler, when it hands a
  free or broken slot to the head of the queue, marks the slot Busy: neither free nor
  broken. \<^verbatim>\<open>queueHandler\<close> does \<^verbatim>\<open>conn.free = false\<close> and nothing else before \<^verbatim>\<open>res(conn)\<close>.
  With one slot, held by call 0, and call 1 waiting, the link of the slot is lost
  (first conjunct): \<^verbatim>\<open>handleServerBroken\<close> sets \<open>broken\<close> and emits the notification. In
  that state, a broken slot and one queued entry, \<open>queueHandler\<close> resolves the entry with
  slot 0 and leaves the slot flagged broken (second to fourth conjunct), so the slot is
  not Busy (fifth), and the scan \<^verbatim>\<open>x.free || x.broken\<close> of the next \<^verbatim>\<open>getConnection\<close> still
  selects the slot that was just handed out (last).
\<close>

theorem queueHandler_keeps_broken:
  "run [Acquire, ConnectOk 0, Acquire, LinkLost 0] (new_sys (Some 1))
     = Some \<lparr>pool = \<lparr>queue = [], connections = [\<lparr>idx = 0, broken = True, free = False\<rparr>],
                     size_p = 1, connectionLimit = 1\<rparr>,
             tasks = [Gone, Resolved 0], trace = [Enq 1, Emit 0, Res 1 0]\<rparr>
   \<and> broken (connections \<lparr>queue = [1],
       connections = [\<lparr>idx = 0, broken = True, free = False\<rparr>], size_p = 1, connectionLimit = 1\<rparr> ! 0)
   \<and> queue \<lparr>queue = [1],
       connections = [\<lparr>idx = 0, broken = True, free = False\<rparr>], size_p = 1, connectionLimit = 1\<rparr> \<noteq> []
   \<and> queueHandler 0 \<lparr>queue = [1],
       connections = [\<lparr>idx = 0, broken = True, free = False\<rparr>], size_p = 1, connectionLimit = 1\<rparr>
     = (\<lparr>queue = [],
         connections = [\<lparr>idx = 0, broken = True, free = False\<rparr>], size_p = 1, connectionLimit = 1\<rparr>,
        [Res 1 0], Inr ())
   \<and> \<not> (\<not> free (connections (fst (queueHandler 0 \<lparr>queue = [1],
             connections = [\<lparr>idx = 0, broken = True, free = False\<rparr>], size_p = 1,
             connectionLimit = 1\<rparr>)) ! 0)
         \<and> \<not> broken (connections (fst (queueHandler 0 \<lparr>queue = [1],
             connections = [\<lparr>idx = 0, broken = True, free = False\<rparr>], size_p = 1,
             connectionLimit = 1\<rparr>)) ! 0))
   \<and> find_pos usable (connections (fst (queueHandler 0 \<lparr>queue = [1],
             connections = [\<lparr>idx = 0, broken = True, free = False\<rparr>], size_p = 1,
             connectionLimit = 1\<rparr>))) = Some 0"
  by code_simp

section \<open>Errors of a command\<close>

text \<open>
  Claim C5. For the slot at position \<open>i\<close> (whose \<open>idx\<close> is \<open>i\<close>) and an \<^verbatim>\<open>execute\<close> whose
  underlying connection fails with \<open>e\<close>: if \<open>e\<close> is a \<open>ConnectionError\<close>, the slot's
  \<open>broken\<close> flag is set and the release notification for \<open>i\<close> is emitted (the pool is
  left as \<open>emit_release\<close> leaves it after the flag is set), and then \<open>e\<close> is thrown; if
  \<open>e\<close> is any other error the pool is unchanged, nothing is emitted and \<open>e\<close> is thrown.
  In both cases what \<^verbatim>\<open>execute\<close> throws is \<open>e\<close>.
\<close>

theorem execute_error_discipline:
  assumes "i < length (connections p)" and "idx (connections p ! i) = i"
  shows "(is_ConnectionError e \<longrightarrow>
            (case execute i (Inl e) p of
               (p', os, r) \<Rightarrow>
                 r = Inl e \<and> broken (connections p' ! i) \<and> os \<noteq> [] \<and> hd os = Emit i
                 \<and> (p', os, Inr ()) = emit_release i (set_broken i True p)))
       \<and> (\<not> is_ConnectionError e \<longrightarrow> execute i (Inl e) p = (p, [], Inl e))
       \<and> (\<forall>p' os r. execute i (Inl e) p = (p', os, r) \<longrightarrow> r = Inl e)"
  using assms
  by (auto simp: execute_def handleExecuteError_def emit_release_def queueHandler_eq set_broken_def
        usable_def split: list.splits)

text \<open>A busy slot whose command fails with a \<open>ConnectionError\<close>, nobody waiting.\<close>

theorem execute_error_discipline_witness:
  "(0::nat) < length (connections \<lparr>queue = [],
       connections = [\<lparr>idx = 0, broken = False, free = False\<rparr>], size_p = 1, connectionLimit = 1\<rparr>)
   \<and> idx (connections \<lparr>queue = [],
       connections = [\<lparr>idx = 0, broken = False, free = False\<rparr>], size_p = 1, connectionLimit = 1\<rparr> ! 0) = 0
   \<and> is_ConnectionError (ConnectionError ''reset'')
   \<and> execute 0 (Inl (ConnectionError ''reset'')) \<lparr>queue = [],
       connections = [\<lparr>idx = 0, broken = False, free = False\<rparr>], size_p = 1, connectionLimit = 1\<rparr>
     = (\<lparr>queue = [],
         connections = [\<lparr>idx = 0, broken = True, free = False\<rparr>], size_p = 1, connectionLimit = 1\<rparr>,
        [Emit 0], Inl (ConnectionError ''reset''))"
  using execute_error_discipline [of 0 "\<lparr>queue = [],
       connections = [\<lparr>idx = 0, broken = False, free = False\<rparr>], size_p = 1, connectionLimit = 1\<rparr>"
       "ConnectionError ''reset''"]
  by (simp add: execute_def handleExecuteError_def emit_release_def queueHandler_def set_broken_def)

section \<open>A command on a destroyed socket\<close>

lemma fire_reply_invoked: "invoked (fire_reply r ks c) = invoked c @ map (\<lambda>k. (k, Inr r)) ks"
  by (induction ks arbitrary: c) auto

lemma fire_error_invoked: "invoked (fire_error e ks c) = invoked c @ map (\<lambda>k. (k, Inl e)) ks"
  by (induction ks arbitrary: c) auto

lemma calls_of_fresh:
  "k \<notin> fst ` set (invoked conn) \<Longrightarrow> filter (\<lambda>x. fst x = k) (invoked conn) = []"
  by (auto simp: filter_empty_conv)

lemma filter_tagged:
  "filter (\<lambda>x. fst x = k) (map (\<lambda>j. (j, v)) ks) = map (\<lambda>j. (j, v)) (filter (\<lambda>j. j = k) ks)"
  by (induction ks) auto

lemma filter_absent: "k \<notin> set ks \<Longrightarrow> filter (\<lambda>j. j = k) ks = []"
  by (auto simp: filter_empty_conv)

text \<open>
  Claim C10. For a connection whose \<open>destroyed\<close> flag is set and a new call \<open>k\<close> of
  \<^verbatim>\<open>execute\<close> (no listener and no callback of that number yet): the promise is rejected
  with the error "Socket Destroyed"; the command is written to the socket all the same,
  and the listeners of the call are registered on "reply" and on "error"; when the
  socket then emits a reply, or an error, the callback of the call is called a second
  time.
\<close>

theorem destroyed_execute_calls_back_twice:
  assumes "destroyed conn" and "k \<notin> fst ` set (invoked conn)"
    and "k \<notin> set (reply_once conn)" and "k \<notin> set (error_once conn)"
  shows "promise_of k (execute_basic k cmd conn) = Rejected (Error ''Socket Destroyed'')
    \<and> written (execute_basic k cmd conn) = written conn @ [cmd]
    \<and> reply_once (execute_basic k cmd conn) = reply_once conn @ [k]
    \<and> error_once (execute_basic k cmd conn) = error_once conn @ [k]
    \<and> calls_of k (emit_reply r (execute_basic k cmd conn))
        = [Inl (Error ''Socket Destroyed''), Inr r]
    \<and> calls_of k (emit_error e (execute_basic k cmd conn))
        = [Inl (Error ''Socket Destroyed''), Inl e]"
  using assms
  by (simp add: promise_of_def calls_of_def execute_basic_def executeCb_def Let_def
      emit_reply_def emit_error_def fire_reply_invoked fire_error_invoked calls_of_fresh
      filter_tagged filter_absent)

theorem destroyed_execute_calls_back_twice_witness:
  "destroyed \<lparr>destroyed = True, written = [], reply_once = [], error_once = [], invoked = []\<rparr>
   \<and> (0::nat) \<notin> fst ` set (invoked
        \<lparr>destroyed = True, written = [], reply_once = [], error_once = [], invoked = []\<rparr>)
   \<and> promise_of 0 (execute_basic 0 [''get'', ''test_string'']
        \<lparr>destroyed = True, written = [], reply_once = [], error_once = [], invoked = []\<rparr>)
       = Rejected (Error ''Socket Destroyed'')
   \<and> calls_of 0 (emit_reply ''hello'' (execute_basic 0 [''get'', ''test_string'']
        \<lparr>destroyed = True, written = [], reply_once = [], error_once = [], invoked = []\<rparr>))
       = [Inl (Error ''Socket Destroyed''), Inr ''hello'']"
  using destroyed_execute_calls_back_twice
    [of "\<lparr>destroyed = True, written = [], reply_once = [], error_once = [], invoked = []\<rparr>"
        0 "[''get'', ''test_string'']" "''hello''"]
  by simp

section \<open>The wait queue is served first come, first served\<close>

text \<open>
  Claim C2. In every state the pool can reach: if the entry of call \<open>a\<close> was pushed
  before the entry of call \<open>b\<close> and both have been resolved, then the entry of \<open>a\<close>
  was resolved before the entry of \<open>b\<close>; and no entry is resolved more than once.
\<close>

theorem fifo_wait_queue:
  assumes "run es (new_sys cfg) = Some s"
  shows "(before (Enq a) (Enq b) (trace s) \<and> Res a i \<in> set (trace s) \<and> Res b j \<in> set (trace s)
            \<longrightarrow> before (Res a i) (Res b j) (trace s))
       \<and> count_list (fulfilled (trace s)) w \<le> 1"
proof -
  from run_fifo_inv [OF assms]
  have eq: "enqueued (trace s) = settled (trace s) @ queue (pool s)"
    and d: "distinct (enqueued (trace s))"
    unfolding fifo_inv_def by blast+
  from d have dsq: "distinct (settled (trace s) @ queue (pool s))" by (simp only: eq)
  then have ds: "distinct (settled (trace s))" by simp
  have "before (Res a i) (Res b j) (trace s)"
    if h1: "before (Enq a) (Enq b) (trace s)" and h2: "Res a i \<in> set (trace s)"
      and h3: "Res b j \<in> set (trace s)"
  proof -
    from h1 have "before a b (enqueued (trace s))" by (rule before_enqueued)
    then have "before a b (settled (trace s) @ queue (pool s))" by (simp only: eq)
    then have "before a b (settled (trace s))"
      using dsq Res_settled [OF h2] Res_settled [OF h3] by (rule before_prefix)
    then show ?thesis using ds h2 h3 by (rule before_Res)
  qed
  moreover have "count_list (fulfilled (trace s)) w \<le> 1"
    using count_fulfilled_le [of "trace s" w] distinct_count_le [OF ds, of w] by (rule order_trans)
  ultimately show ?thesis by simp
qed

text \<open>
  One slot, two waiting calls, each served by the release of the call before it.
\<close>

theorem fifo_wait_queue_witness:
  "run [Acquire, ConnectOk 0, Acquire, Acquire, Release 0, Resume 1, Release 0, Resume 2]
       (new_sys (Some 1))
     = Some \<lparr>pool = \<lparr>queue = [], connections = [\<lparr>idx = 0, broken = False, free = False\<rparr>],
                     size_p = 1, connectionLimit = 1\<rparr>,
             tasks = [Gone, Gone, Holding 0],
             trace = [Enq 1, Enq 2, Emit 0, Res 1 0, Emit 0, Res 2 0]\<rparr>
   \<and> before (Enq 1) (Enq 2) [Enq 1, Enq 2, Emit 0, Res 1 0, Emit 0, Res 2 0]
   \<and> before (Res 1 0) (Res 2 0) [Enq 1, Enq 2, Emit 0, Res 1 0, Emit 0, Res 2 0]
   \<and> count_list (fulfilled [Enq 1, Enq 2, Emit 0, Res 1 0, Emit 0, Res 2 0]) 1 \<le> 1"
proof -
  have r: "run [Acquire, ConnectOk 0, Acquire, Acquire, Release 0, Resume 1, Release 0, Resume 2]
       (new_sys (Some 1))
     = Some \<lparr>pool = \<lparr>queue = [], connections = [\<lparr>idx = 0, broken = False, free = False\<rparr>],
                     size_p = 1, connectionLimit = 1\<rparr>,
             tasks = [Gone, Gone, Holding 0],
             trace = [Enq 1, Enq 2, Emit 0, Res 1 0, Emit 0, Res 2 0]\<rparr>"
    by code_simp
  from fifo_wait_queue [OF r, of 1 2 0 0 1] r show ?thesis by simp
qed

section \<open>The slot array only grows, up to the limit\<close>

text \<open>
  Claim C8. Let the pool, created with some configuration, reach a state \<open>s\<close> and later
  a state \<open>s'\<close>. In \<open>s'\<close> there are at most \<^verbatim>\<open>connectionLimit\<close> slots, and the limit is the
  configured one; \<^verbatim>\<open>size\<close> counts them; there are at least as many slots as in \<open>s\<close>; the
  slot at each position has that position as its \<open>idx\<close>; and each slot of \<open>s\<close> is at the
  same position, with the same \<open>idx\<close>, in \<open>s'\<close>.
\<close>

theorem bounded_monotonic_growth:
  assumes "run es (new_sys cfg) = Some s" and "run es' s = Some s'"
  shows "length (connections (pool s')) \<le> connectionLimit (pool s')
       \<and> connectionLimit (pool s') = (case cfg of None \<Rightarrow> 10 | Some n \<Rightarrow> n)
       \<and> size_p (pool s') = length (connections (pool s'))
       \<and> length (connections (pool s)) \<le> length (connections (pool s'))
       \<and> map idx (connections (pool s')) = [0..<length (connections (pool s'))]
       \<and> (\<forall>i < length (connections (pool s)).
             idx (connections (pool s) ! i) = i \<and> idx (connections (pool s') ! i) = i)"
proof -
  from run_grows [OF new_sys_slots_ok assms(1)]
  have s: "slots_ok (pool s)" and lim: "connectionLimit (pool s) = connectionLimit (pool (new_sys cfg))"
    by simp_all
  from run_grows [OF s assms(2)]
  have s': "slots_ok (pool s')" and len: "length (connections (pool s)) \<le> length (connections (pool s'))"
    and lim': "connectionLimit (pool s') = connectionLimit (pool s)"
    by simp_all
  have "connectionLimit (pool s') = (case cfg of None \<Rightarrow> 10 | Some n \<Rightarrow> n)"
    by (simp add: lim lim' new_sys_def new_pool_def)
  moreover have "\<forall>i < length (connections (pool s)).
             idx (connections (pool s) ! i) = i \<and> idx (connections (pool s') ! i) = i"
    using s s' len by (auto simp: slots_ok_idx)
  ultimately show ?thesis using s' len by (simp add: slots_ok_def)
qed

text \<open>A pool of two: one slot in \<open>s\<close>, two in \<open>s'\<close>, and a third call has to wait.\<close>

theorem bounded_monotonic_growth_witness:
  "run [Acquire, ConnectOk 0] (new_sys (Some 2))
     = Some \<lparr>pool = \<lparr>queue = [], connections = [\<lparr>idx = 0, broken = False, free = False\<rparr>],
                     size_p = 1, connectionLimit = 2\<rparr>,
             tasks = [Holding 0], trace = []\<rparr>
   \<and> run [Acquire, Acquire, Release 0]
        \<lparr>pool = \<lparr>queue = [], connections = [\<lparr>idx = 0, broken = False, free = False\<rparr>],
                     size_p = 1, connectionLimit = 2\<rparr>,
             tasks = [Holding 0], trace = []\<rparr>
     = Some \<lparr>pool = \<lparr>queue = [],
                     connections = [\<lparr>idx = 0, broken = False, free = False\<rparr>,
                                    \<lparr>idx = 1, broken = False, free = False\<rparr>],
                     size_p = 2, connectionLimit = 2\<rparr>,
             tasks = [Gone, Initializing 1, Resolved 0], trace = [Enq 2, Emit 0, Res 2 0]\<rparr>
   \<and> length (connections (pool \<lparr>pool = \<lparr>queue = [],
                     connections = [\<lparr>idx = 0, broken = False, free = False\<rparr>,
                                    \<lparr>idx = 1, broken = False, free = False\<rparr>],
                     size_p = 2, connectionLimit = 2\<rparr>,
             tasks = [Gone, Initializing 1, Resolved 0], trace = [Enq 2, Emit 0, Res 2 0]\<rparr>)) \<le> 2"
proof -
  have r1: "run [Acquire, ConnectOk 0] (new_sys (Some 2))
     = Some \<lparr>pool = \<lparr>queue = [], connections = [\<lparr>idx = 0, broken = False, free = False\<rparr>],
                     size_p = 1, connectionLimit = 2\<rparr>,
             tasks = [Holding 0], trace = []\<rparr>"
    by code_simp
  have r2: "run [Acquire, Acquire, Release 0]
        \<lparr>pool = \<lparr>queue = [], connections = [\<lparr>idx = 0, broken = False, free = False\<rparr>],
                     size_p = 1, connectionLimit = 2\<rparr>,
             tasks = [Holding 0], trace = []\<rparr>
     = Some \<lparr>pool = \<lparr>queue = [],
                     connections = [\<lparr>idx = 0, broken = False, free = False\<rparr>,
                                    \<lparr>idx = 1, broken = False, free = False\<rparr>],
                     size_p = 2, connectionLimit = 2\<rparr>,
             tasks = [Gone, Initializing 1, Resolved 0], trace = [Enq 2, Emit 0, Res 2 0]\<rparr>"
    by code_simp
  from bounded_monotonic_growth [OF r1 r2] r1 r2 show ?thesis by simp
qed

section \<open>Releasing a slot that is not held\<close>

text \<open>
  Claim C4, as far as the code goes. In every state the pool can reach, \<^verbatim>\<open>release()\<close> on a
  slot that is already free changes nothing of the pool: the notification is emitted,
  nobody is waiting (no call waits while a slot is free), so no entry is resolved and
  the slot stays free. And no \<^verbatim>\<open>release()\<close>, on any slot, adds, removes or moves a slot.
\<close>

theorem release_of_free_slot:
  assumes "run es (new_sys cfg) = Some s"
    and "i < length (connections (pool s))" and "free (connections (pool s) ! i)"
  shows "release i (pool s) = (pool s, [Emit i], Inr ())
       \<and> step (Release i) s = Some (s\<lparr>tasks := end_hold i (tasks s), trace := trace s @ [Emit i]\<rparr>)
       \<and> (\<forall>j. map idx (connections (fst (release j (pool s)))) = map idx (connections (pool s)))"
proof -
  from assms(1) have ok: "slots_ok (pool s)" by (rule run_slots_ok)
  from assms(1) have "queue_idle (pool s)" by (rule run_queue_idle)
  with assms(2,3) have q: "queue (pool s) = []"
    by (auto simp: queue_idle_def)
  from ok assms(2,3) q have r: "release i (pool s) = (pool s, [Emit i], Inr ())"
    by (simp add: release_eq set_free_same)
  moreover from r have "step (Release i) s = Some (s\<lparr>tasks := end_hold i (tasks s), trace := trace s @ [Emit i]\<rparr>)"
    by simp
  moreover have "\<forall>j. map idx (connections (fst (release j (pool s)))) = map idx (connections (pool s))"
    using release_keeps_slots [OF ok] by (metis prod.collapse)
  ultimately show ?thesis by simp
qed

text \<open>A slot released once is free; releasing it again leaves the pool as it is.\<close>

theorem release_of_free_slot_witness:
  "run [Acquire, ConnectOk 0, Release 0] (new_sys (Some 1))
     = Some \<lparr>pool = \<lparr>queue = [], connections = [\<lparr>idx = 0, broken = False, free = True\<rparr>],
                     size_p = 1, connectionLimit = 1\<rparr>,
             tasks = [Gone], trace = [Emit 0]\<rparr>
   \<and> free (connections \<lparr>queue = [], connections = [\<lparr>idx = 0, broken = False, free = True\<rparr>],
                     size_p = 1, connectionLimit = 1\<rparr> ! 0)
   \<and> release 0 \<lparr>queue = [], connections = [\<lparr>idx = 0, broken = False, free = True\<rparr>],
                     size_p = 1, connectionLimit = 1\<rparr>
     = (\<lparr>queue = [], connections = [\<lparr>idx = 0, broken = False, free = True\<rparr>],
                     size_p = 1, connectionLimit = 1\<rparr>, [Emit 0], Inr ())"
proof -
  have r: "run [Acquire, ConnectOk 0, Release 0] (new_sys (Some 1))
     = Some \<lparr>pool = \<lparr>queue = [], connections = [\<lparr>idx = 0, broken = False, free = True\<rparr>],
                     size_p = 1, connectionLimit = 1\<rparr>,
             tasks = [Gone], trace = [Emit 0]\<rparr>"
    by code_simp
  from release_of_free_slot [OF r, of 0] r show ?thesis by simp
qed

text \<open>
  Claim C4 as written also covers a slot that is not free. \<^verbatim>\<open>release()\<close> checks nothing:
  it sets \<open>free\<close> and emits. With one slot and two calls waiting, a second release by
  the first holder resolves the second entry with the slot the first entry was just
  resolved with, and both calls return with slot 0. The same happens when the slot is
  flagged broken at the time of the release: after the link is lost the first entry is
  resolved with the slot (second run), and a release by the former holder in that state
  resolves the second entry with it too (third run).
\<close>

theorem release_twice_serves_twice:
  "run [Acquire, ConnectOk 0, Acquire, Acquire, Release 0, Release 0, Resume 1, Resume 2]
       (new_sys (Some 1))
     = Some \<lparr>pool = \<lparr>queue = [], connections = [\<lparr>idx = 0, broken = False, free = False\<rparr>],
                     size_p = 1, connectionLimit = 1\<rparr>,
             tasks = [Gone, Holding 0, Holding 0],
             trace = [Enq 1, Enq 2, Emit 0, Res 1 0, Emit 0, Res 2 0]\<rparr>
   \<and> run [Acquire, ConnectOk 0, Acquire, Acquire, LinkLost 0] (new_sys (Some 1))
     = Some \<lparr>pool = \<lparr>queue = [2], connections = [\<lparr>idx = 0, broken = True, free = False\<rparr>],
                     size_p = 1, connectionLimit = 1\<rparr>,
             tasks = [Gone, Resolved 0, Waiting],
             trace = [Enq 1, Enq 2, Emit 0, Res 1 0]\<rparr>
   \<and> run [Acquire, ConnectOk 0, Acquire, Acquire, LinkLost 0, Release 0, Resume 1, Resume 2, ConnectOk 1]
       (new_sys (Some 1))
     = Some \<lparr>pool = \<lparr>queue = [], connections = [\<lparr>idx = 0, broken = False, free = False\<rparr>],
                     size_p = 1, connectionLimit = 1\<rparr>,
             tasks = [Gone, Holding 0, Holding 0],
             trace = [Enq 1, Enq 2, Emit 0, Res 1 0, Emit 0, Res 2 0]\<rparr>"
  by code_simp

section \<open>Teardown\<close>

text \<open>
  Claim C3, as far as the code goes. \<^verbatim>\<open>emptyQueue()\<close> empties the queue and changes nothing
  else of the pool; it rejects every queued entry, in queue order, with
  \<open>ConnectionError ''No live TCP connection''\<close>, and the calls awaiting those entries
  throw that error. The pool keeps no record of the teardown: a call of \<^verbatim>\<open>getConnection\<close>
  right after it is taken like any other call and does not throw.
\<close>

theorem teardown_fails_waiters:
  assumes "step Teardown s = Some s1"
  shows "pool s1 = (pool s)\<lparr>queue := []\<rparr>
       \<and> trace s1 = trace s @ map (\<lambda>w. Rej w (ConnectionError ''No live TCP connection'')) (queue (pool s))
       \<and> (\<forall>w \<in> set (queue (pool s)). w < length (tasks s) \<and> tasks s ! w = Waiting
             \<longrightarrow> tasks s1 ! w = Failed (ConnectionError ''No live TCP connection''))
       \<and> (case step Acquire s1 of
             None \<Rightarrow> False
           | Some s2 \<Rightarrow> length (tasks s2) = Suc (length (tasks s1)) \<and> (\<forall>e. tasks s2 ! length (tasks s1) \<noteq> Failed e))"
proof -
  from assms have s1: "s1 = \<lparr>pool = (pool s)\<lparr>queue := []\<rparr>,
      tasks = fold deliver (map (\<lambda>w. Rej w (ConnectionError ''No live TCP connection'')) (queue (pool s))) (tasks s),
      trace = trace s @ map (\<lambda>w. Rej w (ConnectionError ''No live TCP connection'')) (queue (pool s))\<rparr>"
    by (simp add: emptyQueue_eq)
  have "case step Acquire s1 of
             None \<Rightarrow> False
           | Some s2 \<Rightarrow> length (tasks s2) = Suc (length (tasks s1)) \<and> (\<forall>e. tasks s2 ! length (tasks s1) \<noteq> Failed e)"
    by (cases "getConnection (length (tasks s1)) (pool s1)") (auto dest: getConnection_task)
  then show ?thesis unfolding s1 by (simp add: fold_deliver_rejections)
qed

text \<open>Two calls wait for the one slot; after the teardown a third call waits in turn.\<close>

theorem teardown_fails_waiters_witness:
  "step Teardown \<lparr>pool = \<lparr>queue = [1, 2], connections = [\<lparr>idx = 0, broken = False, free = False\<rparr>],
                     size_p = 1, connectionLimit = 1\<rparr>,
             tasks = [Holding 0, Waiting, Waiting], trace = [Enq 1, Enq 2]\<rparr>
     = Some \<lparr>pool = \<lparr>queue = [], connections = [\<lparr>idx = 0, broken = False, free = False\<rparr>],
                     size_p = 1, connectionLimit = 1\<rparr>,
             tasks = [Holding 0, Failed (ConnectionError ''No live TCP connection''),
                      Failed (ConnectionError ''No live TCP connection'')],
             trace = [Enq 1, Enq 2, Rej 1 (ConnectionError ''No live TCP connection''),
                      Rej 2 (ConnectionError ''No live TCP connection'')]\<rparr>
   \<and> step Acquire \<lparr>pool = \<lparr>queue = [], connections = [\<lparr>idx = 0, broken = False, free = False\<rparr>],
                     size_p = 1, connectionLimit = 1\<rparr>,
             tasks = [Holding 0, Failed (ConnectionError ''No live TCP connection''),
                      Failed (ConnectionError ''No live TCP connection'')],
             trace = [Enq 1, Enq 2, Rej 1 (ConnectionError ''No live TCP connection''),
                      Rej 2 (ConnectionError ''No live TCP connection'')]\<rparr>
     = Some \<lparr>pool = \<lparr>queue = [3], connections = [\<lparr>idx = 0, broken = False, free = False\<rparr>],
                     size_p = 1, connectionLimit = 1\<rparr>,
             tasks = [Holding 0, Failed (ConnectionError ''No live TCP connection''),
                      Failed (ConnectionError ''No live TCP connection''), Waiting],
             trace = [Enq 1, Enq 2, Rej 1 (ConnectionError ''No live TCP connection''),
                      Rej 2 (ConnectionError ''No live TCP connection''), Enq 3]\<rparr>"
proof -
  have t: "step Teardown \<lparr>pool = \<lparr>queue = [1, 2], connections = [\<lparr>idx = 0, broken = False, free = False\<rparr>],
                     size_p = 1, connectionLimit = 1\<rparr>,
             tasks = [Holding 0, Waiting, Waiting], trace = [Enq 1, Enq 2]\<rparr>
     = Some \<lparr>pool = \<lparr>queue = [], connections = [\<lparr>idx = 0, broken = False, free = False\<rparr>],
                     size_p = 1, connectionLimit = 1\<rparr>,
             tasks = [Holding 0, Failed (ConnectionError ''No live TCP connection''),
                      Failed (ConnectionError ''No live TCP connection'')],
             trace = [Enq 1, Enq 2, Rej 1 (ConnectionError ''No live TCP connection''),
                      Rej 2 (ConnectionError ''No live TCP connection'')]\<rparr>"
    by code_simp
  from teardown_fails_waiters [OF t] t show ?thesis
    by (simp add: getConnection_def getOldConnection_def usable_def)
qed

text \<open>
  Claim C3 as written says that an acquire after the teardown fails. Here a call made
  after \<^verbatim>\<open>emptyQueue()\<close> returns with slot 0, which was released in between.
\<close>

theorem acquire_after_teardown_succeeds:
  "run [Acquire, ConnectOk 0, Acquire, Teardown, Release 0, Acquire] (new_sys (Some 1))
     = Some \<lparr>pool = \<lparr>queue = [], connections = [\<lparr>idx = 0, broken = False, free = False\<rparr>],
                     size_p = 1, connectionLimit = 1\<rparr>,
             tasks = [Gone, Failed (ConnectionError ''No live TCP connection''), Holding 0],
             trace = [Enq 1, Rej 1 (ConnectionError ''No live TCP connection''), Emit 0]\<rparr>"
  by code_simp

section \<open>A repair that fails\<close>

text \<open>
  Claim C6, as far as the code goes. In every state the pool can reach, when call \<open>c\<close>
  awaits the repair of the broken slot \<open>i\<close> it selected and the repair fails with \<open>e\<close>,
  the call throws \<open>e\<close>. If \<open>e\<close> is a \<open>ConnectionError\<close>, the slot is flagged broken
  again, so that the scan for a free or broken slot finds it. If \<open>e\<close> is another error,
  the pool is left as it is: the \<open>broken\<close> flag, which \<^verbatim>\<open>getOldConnection\<close> cleared before
  the repair, is not set again.
\<close>

theorem repair_failure:
  assumes "run es (new_sys cfg) = Some s" and "tasks s ! c = Repairing i"
    and "step (ConnectFail c e) s = Some s'"
  shows "tasks s' ! c = Failed e
       \<and> (is_ConnectionError e \<longrightarrow>
            i < length (connections (pool s')) \<and> broken (connections (pool s') ! i)
            \<and> usable (connections (pool s') ! i))
       \<and> (\<not> is_ConnectionError e \<longrightarrow> pool s' = pool s)"
proof -
  from assms(1) have ok: "slots_ok (pool s)" by (rule run_slots_ok)
  from assms(2,3) have c: "c < length (tasks s)" and i: "i < length (connections (pool s))"
    by (auto simp: finish_connect_def split: if_splits)
  from ok c i assms(2,3) show ?thesis
    by (auto simp: finish_connect_def initialize_def handleExecuteError_eq set_broken_def usable_def
        split: if_splits)
qed

text \<open>The link of slot 0 is lost, the next call selects the slot, and the repair is refused.\<close>

theorem repair_failure_witness:
  "run [Acquire, ConnectOk 0, LinkLost 0, Acquire] (new_sys (Some 1))
     = Some \<lparr>pool = \<lparr>queue = [], connections = [\<lparr>idx = 0, broken = False, free = False\<rparr>],
                     size_p = 1, connectionLimit = 1\<rparr>,
             tasks = [Gone, Repairing 0], trace = [Emit 0]\<rparr>
   \<and> is_ConnectionError (ConnectionError ''refused'')
   \<and> step (ConnectFail 1 (ConnectionError ''refused''))
        \<lparr>pool = \<lparr>queue = [], connections = [\<lparr>idx = 0, broken = False, free = False\<rparr>],
                     size_p = 1, connectionLimit = 1\<rparr>,
             tasks = [Gone, Repairing 0], trace = [Emit 0]\<rparr>
     = Some \<lparr>pool = \<lparr>queue = [], connections = [\<lparr>idx = 0, broken = True, free = False\<rparr>],
                     size_p = 1, connectionLimit = 1\<rparr>,
             tasks = [Gone, Failed (ConnectionError ''refused'')], trace = [Emit 0, Emit 0]\<rparr>
   \<and> broken (connections \<lparr>queue = [], connections = [\<lparr>idx = 0, broken = True, free = False\<rparr>],
                     size_p = 1, connectionLimit = 1\<rparr> ! 0)"
proof -
  have r: "run [Acquire, ConnectOk 0, LinkLost 0, Acquire] (new_sys (Some 1))
     = Some \<lparr>pool = \<lparr>queue = [], connections = [\<lparr>idx = 0, broken = False, free = False\<rparr>],
                     size_p = 1, connectionLimit = 1\<rparr>,
             tasks = [Gone, Repairing 0], trace = [Emit 0]\<rparr>"
    by code_simp
  have st: "step (ConnectFail 1 (ConnectionError ''refused''))
        \<lparr>pool = \<lparr>queue = [], connections = [\<lparr>idx = 0, broken = False, free = False\<rparr>],
                     size_p = 1, connectionLimit = 1\<rparr>,
             tasks = [Gone, Repairing 0], trace = [Emit 0]\<rparr>
     = Some \<lparr>pool = \<lparr>queue = [], connections = [\<lparr>idx = 0, broken = True, free = False\<rparr>],
                     size_p = 1, connectionLimit = 1\<rparr>,
             tasks = [Gone, Failed (ConnectionError ''refused'')], trace = [Emit 0, Emit 0]\<rparr>"
    by code_simp
  from repair_failure [OF r _ st, of 0] r st show ?thesis by simp
qed

text \<open>
  Claim C6 as written says that the slot is left broken after every failure of the
  repair. \<^verbatim>\<open>handleExecuteError\<close> sets the flag under \<^verbatim>\<open>e.constructor === ConnectionError\<close>
  only: here the repair fails with another error, the call throws it, and the slot is
  left with \<open>broken\<close> cleared.
\<close>

theorem repair_failure_other_error:
  "run [Acquire, ConnectOk 0, LinkLost 0, Acquire] (new_sys (Some 1))
     = Some \<lparr>pool = \<lparr>queue = [], connections = [\<lparr>idx = 0, broken = False, free = False\<rparr>],
                     size_p = 1, connectionLimit = 1\<rparr>,
             tasks = [Gone, Repairing 0], trace = [Emit 0]\<rparr>
   \<and> run [Acquire, ConnectOk 0, LinkLost 0, Acquire, ConnectFail 1 (Error ''NOAUTH'')] (new_sys (Some 1))
     = Some \<lparr>pool = \<lparr>queue = [], connections = [\<lparr>idx = 0, broken = False, free = False\<rparr>],
                     size_p = 1, connectionLimit = 1\<rparr>,
             tasks = [Gone, Failed (Error ''NOAUTH'')], trace = [Emit 0]\<rparr>
   \<and> \<not> broken (connections \<lparr>queue = [], connections = [\<lparr>idx = 0, broken = False, free = False\<rparr>],
                     size_p = 1, connectionLimit = 1\<rparr> ! 0)"
  by code_simp

section \<open>A first initialization that fails\<close>

text \<open>
  Claim C9, as far as the code goes. Let the pool reach a state \<open>s0\<close> in which a call of
  \<^verbatim>\<open>getConnection\<close> creates slot \<open>i\<close>. If, while nothing from outside reaches that slot
  (no release, no lost link, no failed command on it), its initialization fails with an
  error that is not a \<open>ConnectionError\<close>, then the call throws that error and the pool
  is unchanged by the failure: the slot stays in the array, flagged neither free nor
  broken, and \<^verbatim>\<open>size\<close> stays incremented. As long as nothing from outside reaches the
  slot afterwards, it stays that way: no call ever refers to it and no queue entry is
  ever resolved with it. The loss ends when the link of the slot's connection is lost:
  that flags the slot broken.
\<close>

theorem failed_init_loses_slot:
  assumes reach: "run es0 (new_sys cfg) = Some s0"
    and create: "step Acquire s0 = Some s1" "tasks s1 ! length (tasks s0) = Initializing i"
    and quiet1: "run es1 s1 = Some s2" "\<forall>ev \<in> set es1. \<not> touches i ev"
    and fail: "step (ConnectFail (length (tasks s0)) e) s2 = Some s3" "\<not> is_ConnectionError e"
    and quiet2: "run es2 s3 = Some s4" "\<forall>ev \<in> set es2. \<not> touches i ev"
  shows "tasks s3 ! length (tasks s0) = Failed e \<and> tasks s4 ! length (tasks s0) = Failed e
       \<and> pool s3 = pool s2
       \<and> size_p (pool s1) = Suc (size_p (pool s0)) \<and> size_p (pool s1) \<le> size_p (pool s4)
       \<and> i < length (connections (pool s4))
       \<and> \<not> free (connections (pool s4) ! i) \<and> \<not> broken (connections (pool s4) ! i)
       \<and> (\<forall>c < length (tasks s4). slot_of (tasks s4 ! c) \<noteq> Some i)
       \<and> (\<forall>w. Res w i \<notin> set (trace s4))
       \<and> (\<forall>s5. step (LinkLost i) s4 = Some s5 \<longrightarrow> broken (connections (pool s5) ! i))"
proof -
  let ?c = "length (tasks s0)"
  from reach have ok0: "slots_ok (pool s0)" and r0: "refs_ok s0"
    by (rule run_slots_ok, rule run_refs_ok)
  from acquire_creates [OF ok0 r0 create]
  have p1: "pending_init ?c i s1" and sz: "size_p (pool s1) = Suc (size_p (pool s0))"
    by simp_all
  have p2: "pending_init ?c i s2"
    by (rule run_invariant_on [where P = "pending_init ?c i" and Q = "\<lambda>ev. \<not> touches i ev",
          OF quiet1(1) p1 quiet1(2)])
       (rule step_pending_init)
  from init_failure_loses_slot [OF p2 fail]
  have l3: "lost_slot ?c i e s3" and pool3: "pool s3 = pool s2" by simp_all
  have l4: "lost_slot ?c i e s4"
    by (rule run_invariant_on [where P = "lost_slot ?c i e" and Q = "\<lambda>ev. \<not> touches i ev",
          OF quiet2(1) l3 quiet2(2)])
       (rule step_lost_slot)
  from p1 have ok1: "slots_ok (pool s1)" by (simp add: pending_init_def)
  from p2 have ok2: "slots_ok (pool s2)" by (simp add: pending_init_def)
  from l3 have ok3: "slots_ok (pool s3)" by (simp add: lost_slot_def)
  from run_grows [OF ok1 quiet1(1)] run_grows [OF ok3 quiet2(1)] pool3
  have "length (connections (pool s1)) \<le> length (connections (pool s4))" by simp
  with ok1 l4 have "size_p (pool s1) \<le> size_p (pool s4)"
    by (simp add: slots_ok_def lost_slot_def)
  moreover from l4 have "slots_ok (pool s4)" by (simp add: lost_slot_def)
  then have "\<forall>s5. step (LinkLost i) s4 = Some s5 \<longrightarrow> broken (connections (pool s5) ! i)"
    by (auto dest: link_lost_flags_broken)
  ultimately show ?thesis using l3 l4 pool3 sz
    by (simp add: lost_slot_def no_ref_def usable_def)
qed

text \<open>
  A pool of one whose only slot fails to authenticate: the next call waits, and after a
  teardown the call after that waits again.
\<close>

theorem failed_init_loses_slot_witness:
  "run [] (new_sys (Some 1)) = Some (new_sys (Some 1))
   \<and> step Acquire (new_sys (Some 1))
     = Some \<lparr>pool = \<lparr>queue = [], connections = [\<lparr>idx = 0, broken = False, free = False\<rparr>],
                     size_p = 1, connectionLimit = 1\<rparr>,
             tasks = [Initializing 0], trace = []\<rparr>
   \<and> \<not> is_ConnectionError (Error ''NOAUTH'')
   \<and> step (ConnectFail 0 (Error ''NOAUTH''))
        \<lparr>pool = \<lparr>queue = [], connections = [\<lparr>idx = 0, broken = False, free = False\<rparr>],
                     size_p = 1, connectionLimit = 1\<rparr>,
             tasks = [Initializing 0], trace = []\<rparr>
     = Some \<lparr>pool = \<lparr>queue = [], connections = [\<lparr>idx = 0, broken = False, free = False\<rparr>],
                     size_p = 1, connectionLimit = 1\<rparr>,
             tasks = [Failed (Error ''NOAUTH'')], trace = []\<rparr>
   \<and> run [Acquire, Teardown, Acquire]
        \<lparr>pool = \<lparr>queue = [], connections = [\<lparr>idx = 0, broken = False, free = False\<rparr>],
                     size_p = 1, connectionLimit = 1\<rparr>,
             tasks = [Failed (Error ''NOAUTH'')], trace = []\<rparr>
     = Some \<lparr>pool = \<lparr>queue = [2], connections = [\<lparr>idx = 0, broken = False, free = False\<rparr>],
                     size_p = 1, connectionLimit = 1\<rparr>,
             tasks = [Failed (Error ''NOAUTH''), Failed (ConnectionError ''No live TCP connection''),
                      Waiting],
             trace = [Enq 1, Rej 1 (ConnectionError ''No live TCP connection''), Enq 2]\<rparr>
   \<and> \<not> free (connections \<lparr>queue = [2], connections = [\<lparr>idx = 0, broken = False, free = False\<rparr>],
                     size_p = 1, connectionLimit = 1\<rparr> ! 0)"
proof -
  have r0: "run [] (new_sys (Some 1)) = Some (new_sys (Some 1))" by simp
  have a: "step Acquire (new_sys (Some 1))
     = Some \<lparr>pool = \<lparr>queue = [], connections = [\<lparr>idx = 0, broken = False, free = False\<rparr>],
                     size_p = 1, connectionLimit = 1\<rparr>,
             tasks = [Initializing 0], trace = []\<rparr>"
    by code_simp
  have r1: "run [] \<lparr>pool = \<lparr>queue = [], connections = [\<lparr>idx = 0, broken = False, free = False\<rparr>],
                     size_p = 1, connectionLimit = 1\<rparr>,
             tasks = [Initializing 0], trace = []\<rparr>
     = Some \<lparr>pool = \<lparr>queue = [], connections = [\<lparr>idx = 0, broken = False, free = False\<rparr>],
                     size_p = 1, connectionLimit = 1\<rparr>,
             tasks = [Initializing 0], trace = []\<rparr>" by simp
  have f: "step (ConnectFail 0 (Error ''NOAUTH''))
        \<lparr>pool = \<lparr>queue = [], connections = [\<lparr>idx = 0, broken = False, free = False\<rparr>],
                     size_p = 1, connectionLimit = 1\<rparr>,
             tasks = [Initializing 0], trace = []\<rparr>
     = Some \<lparr>pool = \<lparr>queue = [], connections = [\<lparr>idx = 0, broken = False, free = False\<rparr>],
                     size_p = 1, connectionLimit = 1\<rparr>,
             tasks = [Failed (Error ''NOAUTH'')], trace = []\<rparr>"
    by code_simp
  have r2: "run [Acquire, Teardown, Acquire]
        \<lparr>pool = \<lparr>queue = [], connections = [\<lparr>idx = 0, broken = False, free = False\<rparr>],
                     size_p = 1, connectionLimit = 1\<rparr>,
             tasks = [Failed (Error ''NOAUTH'')], trace = []\<rparr>
     = Some \<lparr>pool = \<lparr>queue = [2], connections = [\<lparr>idx = 0, broken = False, free = False\<rparr>],
                     size_p = 1, connectionLimit = 1\<rparr>,
             tasks = [Failed (Error ''NOAUTH''), Failed (ConnectionError ''No live TCP connection''),
                      Waiting],
             trace = [Enq 1, Rej 1 (ConnectionError ''No live TCP connection''), Enq 2]\<rparr>"
    by code_simp
  have t: "tasks \<lparr>pool = \<lparr>queue = [], connections = [\<lparr>idx = 0, broken = False, free = False\<rparr>],
                     size_p = 1, connectionLimit = 1\<rparr>,
             tasks = [Initializing 0], trace = []\<rparr> ! length (tasks (new_sys (Some 1))) = Initializing 0"
    by (simp add: new_sys_def)
  have f': "step (ConnectFail (length (tasks (new_sys (Some 1)))) (Error ''NOAUTH''))
        \<lparr>pool = \<lparr>queue = [], connections = [\<lparr>idx = 0, broken = False, free = False\<rparr>],
                     size_p = 1, connectionLimit = 1\<rparr>,
             tasks = [Initializing 0], trace = []\<rparr>
     = Some \<lparr>pool = \<lparr>queue = [], connections = [\<lparr>idx = 0, broken = False, free = False\<rparr>],
                     size_p = 1, connectionLimit = 1\<rparr>,
             tasks = [Failed (Error ''NOAUTH'')], trace = []\<rparr>"
    using f by (simp add: new_sys_def)
  from failed_init_loses_slot [OF r0 a t r1 _ f' _ r2] a f r2 show ?thesis by simp
qed

text \<open>
  Claim C9 as written says that the slot is lost for good. The connection whose
  initialization failed has the "end" callback of the slot bound to it
  (\<^verbatim>\<open>createRedisConnection\<close> binds it before \<^verbatim>\<open>initialize\<close>): when its link is lost,
  \<^verbatim>\<open>handleServerBroken\<close> flags the slot broken and emits the notification, and the slot is
  handed to the waiting call.
\<close>

theorem lost_slot_returns_on_link_lost:
  "run [Acquire, ConnectFail 0 (Error ''NOAUTH''), Acquire] (new_sys (Some 1))
     = Some \<lparr>pool = \<lparr>queue = [1], connections = [\<lparr>idx = 0, broken = False, free = False\<rparr>],
                     size_p = 1, connectionLimit = 1\<rparr>,
             tasks = [Failed (Error ''NOAUTH''), Waiting], trace = [Enq 1]\<rparr>
   \<and> run [Acquire, ConnectFail 0 (Error ''NOAUTH''), Acquire, LinkLost 0, Resume 1, ConnectOk 1]
        (new_sys (Some 1))
     = Some \<lparr>pool = \<lparr>queue = [], connections = [\<lparr>idx = 0, broken = False, free = False\<rparr>],
                     size_p = 1, connectionLimit = 1\<rparr>,
             tasks = [Failed (Error ''NOAUTH''), Holding 0], trace = [Enq 1, Emit 0, Res 1 0]\<rparr>"
  by code_simp

section \<open>Two calls with one slot\<close>

text \<open>
  Claim C1 does not hold of the code. \<^verbatim>\<open>queueHandler\<close> clears \<open>free\<close> when it resolves an
  entry with a slot, but it leaves \<open>broken\<close> set until the resolved call runs again.
  First run: the link of the held slot 0 is lost while call 1 waits; its entry is
  resolved with slot 0, which is still flagged broken. Second run: before call 1 runs
  again, call 2 asks for a connection, finds slot 0 by its \<open>broken\<close> flag and repairs it;
  then call 1 runs again and returns slot 0 too. Calls 1 and 2 both hold slot 0, with no
  release and no lost link since either of them got it.
  Third run: calls 1 and 2 wait; after the lost link call 1 repairs slot 0; the command
  that was in flight on the old connection then fails with a \<open>ConnectionError\<close>, which
  flags the slot broken and emits a second notification, and call 2 is resolved with
  slot 0 and repairs it as well. Again calls 1 and 2 both hold slot 0.
\<close>

theorem two_calls_hold_one_slot:
  "run [Acquire, ConnectOk 0, Acquire, LinkLost 0] (new_sys (Some 1))
     = Some \<lparr>pool = \<lparr>queue = [], connections = [\<lparr>idx = 0, broken = True, free = False\<rparr>],
                     size_p = 1, connectionLimit = 1\<rparr>,
             tasks = [Gone, Resolved 0], trace = [Enq 1, Emit 0, Res 1 0]\<rparr>
   \<and> run [Acquire, ConnectOk 0, Acquire, LinkLost 0, Acquire, ConnectOk 2, Resume 1]
        (new_sys (Some 1))
     = Some \<lparr>pool = \<lparr>queue = [], connections = [\<lparr>idx = 0, broken = False, free = False\<rparr>],
                     size_p = 1, connectionLimit = 1\<rparr>,
             tasks = [Gone, Holding 0, Holding 0], trace = [Enq 1, Emit 0, Res 1 0]\<rparr>
   \<and> holders 0 \<lparr>pool = \<lparr>queue = [], connections = [\<lparr>idx = 0, broken = False, free = False\<rparr>],
                     size_p = 1, connectionLimit = 1\<rparr>,
             tasks = [Gone, Holding 0, Holding 0], trace = [Enq 1, Emit 0, Res 1 0]\<rparr> = [1, 2]
   \<and> run [Acquire, ConnectOk 0, Acquire, Acquire, LinkLost 0, Resume 1,
           ExecFail 0 (ConnectionError ''closed''), Resume 2, ConnectOk 1, ConnectOk 2]
        (new_sys (Some 1))
     = Some \<lparr>pool = \<lparr>queue = [], connections = [\<lparr>idx = 0, broken = False, free = False\<rparr>],
                     size_p = 1, connectionLimit = 1\<rparr>,
             tasks = [Gone, Holding 0, Holding 0],
             trace = [Enq 1, Enq 2, Emit 0, Res 1 0, Emit 0, Res 2 0]\<rparr>
   \<and> holders 0 \<lparr>pool = \<lparr>queue = [], connections = [\<lparr>idx = 0, broken = False, free = False\<rparr>],
                     size_p = 1, connectionLimit = 1\<rparr>,
             tasks = [Gone, Holding 0, Holding 0],
             trace = [Enq 1, Enq 2, Emit 0, Res 1 0, Emit 0, Res 2 0]\<rparr> = [1, 2]"
  by code_simp

end
